theory Spec2Isabelle
  imports Main "HOL-Library.Sublist" "HOL-Library.Multiset"
begin

section \<open>Go strings and the library functions used by main.go\<close>

text \<open>
  A Go string is a sequence of bytes, here a \<open>string\<close> (a list of 8-bit characters).
  The functions of package \<open>strings\<close> that main.go calls are written out below.
\<close>

text \<open>
  \<open>unicode.IsSpace\<close>, as UTF-8 byte sequences: the six ASCII spaces, U+0085, U+00A0,
  U+1680, U+2000 to U+200A, U+2028, U+2029, U+202F, U+205F and U+3000.
\<close>

definition unicode_space :: "string list" where
  "unicode_space =
     [[CHR 0x09], [CHR 0x0A], [CHR 0x0B], [CHR 0x0C], [CHR 0x0D], [CHR 0x20],
      [CHR 0xC2, CHR 0x85], [CHR 0xC2, CHR 0xA0],
      [CHR 0xE1, CHR 0x9A, CHR 0x80],
      [CHR 0xE2, CHR 0x80, CHR 0x80], [CHR 0xE2, CHR 0x80, CHR 0x81],
      [CHR 0xE2, CHR 0x80, CHR 0x82], [CHR 0xE2, CHR 0x80, CHR 0x83],
      [CHR 0xE2, CHR 0x80, CHR 0x84], [CHR 0xE2, CHR 0x80, CHR 0x85],
      [CHR 0xE2, CHR 0x80, CHR 0x86], [CHR 0xE2, CHR 0x80, CHR 0x87],
      [CHR 0xE2, CHR 0x80, CHR 0x88], [CHR 0xE2, CHR 0x80, CHR 0x89],
      [CHR 0xE2, CHR 0x80, CHR 0x8A],
      [CHR 0xE2, CHR 0x80, CHR 0xA8], [CHR 0xE2, CHR 0x80, CHR 0xA9],
      [CHR 0xE2, CHR 0x80, CHR 0xAF],
      [CHR 0xE2, CHR 0x81, CHR 0x9F],
      [CHR 0xE3, CHR 0x80, CHR 0x80]]"

text \<open>The byte length of the white-space rune a string starts (ends) with, 0 if there is none.\<close>

definition leading_space :: "string \<Rightarrow> nat" where
  "leading_space s = (case find (\<lambda>w. prefix w s) unicode_space of None \<Rightarrow> 0 | Some w \<Rightarrow> length w)"

definition trailing_space :: "string \<Rightarrow> nat" where
  "trailing_space s = (case find (\<lambda>w. suffix w s) unicode_space of None \<Rightarrow> 0 | Some w \<Rightarrow> length w)"

lemma leading_space_le: "leading_space s \<le> length s"
proof (cases "find (\<lambda>w. prefix w s) unicode_space")
  case None
  then show ?thesis by (simp add: leading_space_def)
next
  case (Some w)
  then have "prefix w s" by (auto simp: find_Some_iff)
  with Some show ?thesis by (simp add: leading_space_def prefix_length_le)
qed

lemma trailing_space_le: "trailing_space s \<le> length s"
proof (cases "find (\<lambda>w. suffix w s) unicode_space")
  case None
  then show ?thesis by (simp add: trailing_space_def)
next
  case (Some w)
  then have "suffix w s" by (auto simp: find_Some_iff)
  with Some show ?thesis by (simp add: trailing_space_def suffix_length_le)
qed

function trimLeft :: "string \<Rightarrow> string" where
  "trimLeft s = (if leading_space s = 0 then s else trimLeft (drop (leading_space s) s))"
  by pat_completeness auto
termination
proof (relation "measure length")
  fix s :: string
  assume "leading_space s \<noteq> 0"
  moreover have "leading_space s \<le> length s" by (rule leading_space_le)
  ultimately show "(drop (leading_space s) s, s) \<in> measure length" by simp
qed simp

function trimRight :: "string \<Rightarrow> string" where
  "trimRight s = (if trailing_space s = 0 then s else trimRight (take (length s - trailing_space s) s))"
  by pat_completeness auto
termination
proof (relation "measure length")
  fix s :: string
  assume "trailing_space s \<noteq> 0"
  moreover have "trailing_space s \<le> length s" by (rule trailing_space_le)
  ultimately show "(take (length s - trailing_space s) s, s) \<in> measure length" by simp
qed simp

declare trimLeft.simps [simp del] trimRight.simps [simp del]

text \<open>\<open>strings.TrimSpace\<close>: white-space runes are cut from the front, then from the back.\<close>

definition TrimSpace :: "string \<Rightarrow> string" where
  "TrimSpace s = trimRight (trimLeft s)"

text \<open>\<open>strings.TrimPrefix\<close>; \<open>strings.HasPrefix s p\<close> is \<open>prefix p s\<close>.\<close>

definition TrimPrefix :: "string \<Rightarrow> string \<Rightarrow> string" where
  "TrimPrefix s p = (if prefix p s then drop (length p) s else s)"

text \<open>
  \<open>strings.Cut\<close> at the leftmost occurrence of a separator: the text before it and the
  text after it. \<open>strings.Index\<close>, \<open>strings.Split\<close> and \<open>strings.SplitN\<close> find the
  separator the same way.
\<close>

fun Cut :: "string \<Rightarrow> string \<Rightarrow> (string \<times> string) option" where
  "Cut [] sep = (if sep = [] then Some ([], []) else None)"
| "Cut (c # cs) sep =
     (if prefix sep (c # cs) then Some ([], drop (length sep) (c # cs))
      else (case Cut cs sep of None \<Rightarrow> None | Some (b, a) \<Rightarrow> Some (c # b, a)))"

lemma cut_length: "Cut s sep = Some (b, a) \<Longrightarrow> length b + length sep + length a = length s"
proof (induction s arbitrary: b)
  case Nil
  then show ?case by (simp split: if_splits)
next
  case (Cons c cs)
  show ?case
  proof (cases "prefix sep (c # cs)")
    case True
    with Cons.prems have ba: "b = []" "a = drop (length sep) (c # cs)" by simp_all
    from True have "length sep \<le> length (c # cs)" by (rule prefix_length_le)
    with ba show ?thesis by simp
  next
    case False
    with Cons.prems obtain b' where "Cut cs sep = Some (b', a)" and "b = c # b'"
      by (auto split: option.splits)
    with Cons.IH show ?thesis by fastforce
  qed
qed

text \<open>
  \<open>strings.Split s sep\<close> for a separator that is not empty (main.go splits at a newline
  and at the slide break only): the pieces between the leftmost occurrences that do not
  overlap. With an empty separator Go splits after each UTF-8 sequence; that case is never
  called and returns the string whole here.
\<close>

function Split :: "string \<Rightarrow> string \<Rightarrow> string list" where
  "Split s sep =
     (if sep = [] then [s]
      else (case Cut s sep of None \<Rightarrow> [s] | Some (b, a) \<Rightarrow> b # Split a sep))"
  by pat_completeness auto
termination
proof (relation "measure (\<lambda>(s, sep). length s)")
  fix s sep :: string and x2 and b a :: string
  assume "sep \<noteq> []" and "Cut s sep = Some x2" and "(b, a) = x2"
  then have "length b + length sep + length a = length s"
    by (simp add: cut_length)
  with \<open>sep \<noteq> []\<close> show "((a, sep), (s, sep)) \<in> measure (\<lambda>(s, sep). length s)"
    by (cases sep) auto
qed simp

declare Split.simps [simp del]


text \<open>\<open>strings.Join\<close>.\<close>

fun Join :: "string list \<Rightarrow> string \<Rightarrow> string" where
  "Join [] sep = []"
| "Join [x] sep = x"
| "Join (x # y # ys) sep = x @ sep @ Join (y # ys) sep"

text \<open>
  \<open>strings.ToLower\<close> on the bytes below 0x80. Go also maps the runes above by the Unicode
  tables; of those only U+212A and U+0130 become ASCII letters (k and i), which none of
  the prefixes tested by normalizeAssetPath contains, so the prefix tests agree.
\<close>

definition lower_char :: "char \<Rightarrow> char" where
  "lower_char c =
     (if 65 \<le> (of_char c :: nat) \<and> (of_char c :: nat) \<le> 90 then char_of ((of_char c :: nat) + 32) else c)"

definition ToLower :: "string \<Rightarrow> string" where
  "ToLower s = map lower_char s"

text \<open>\<open>html.EscapeString\<close>: five bytes are replaced, each by its entity.\<close>

definition escape_char :: "char \<Rightarrow> string" where
  "escape_char c =
     (if c = CHR ''&'' then ''&amp;''
      else if c = CHR 0x27 then ''&#39;''
      else if c = CHR ''<'' then ''&lt;''
      else if c = CHR ''>'' then ''&gt;''
      else if c = CHR 0x22 then ''&#34;''
      else [c])"

definition EscapeString :: "string \<Rightarrow> string" where
  "EscapeString s = concat (map escape_char s)"

text \<open>The verb \<open>%d\<close> of \<open>fmt.Sprintf\<close> on a number that is not negative.\<close>

fun string_of_nat :: "nat \<Rightarrow> string" where
  "string_of_nat n =
     (if n < 10 then [char_of (48 + n)]
      else string_of_nat (n div 10) @ [char_of (48 + n mod 10)])"

declare string_of_nat.simps [simp del]

section \<open>normalizeAssetPath\<close>

definition normalizeAssetPath :: "string \<Rightarrow> string" where
  "normalizeAssetPath src =
     (let lower = ToLower src in
      if prefix ''http://'' lower \<or> prefix ''https://'' lower \<or> prefix ''data:'' lower
         \<or> prefix ''/'' lower
      then src
      else ''/assets/'' @ src)"

section \<open>The regular expressions of main.go\<close>

text \<open>
  Go's \<open>regexp\<close> returns the leftmost match, and at that place the match a backtracking
  search finds first. Each expression is written as a function that matches it at the
  start of a string and returns the captured groups and the text after the match. The
  delimiters of every expression are ASCII and its classes are complements of ASCII
  sets, so matching bytes and matching runes give the same groups.
\<close>

definition re_space :: "char \<Rightarrow> bool" where
  \<comment> \<open>the class \<open>\s\<close>: tab, newline, form feed, carriage return, space\<close>
  "re_space c \<longleftrightarrow> c = CHR 0x09 \<or> c = CHR 0x0A \<or> c = CHR 0x0C \<or> c = CHR 0x0D \<or> c = CHR 0x20"

definition re_digit :: "char \<Rightarrow> bool" where
  \<comment> \<open>the class \<open>\d\<close>\<close>
  "re_digit c \<longleftrightarrow> 48 \<le> (of_char c :: nat) \<and> (of_char c :: nat) \<le> 57"

text \<open>The matched text, given the string matched at its start and what the match left.\<close>

definition matched :: "string \<Rightarrow> string \<Rightarrow> string" where
  "matched s rest = take (length s - length rest) s"

text \<open>
  \<open>FindStringSubmatch\<close>: the groups of the leftmost match anywhere in the string. None of
  the expressions it is used with matches the empty string.
\<close>

fun find_first :: "(string \<Rightarrow> 'g option) \<Rightarrow> string \<Rightarrow> 'g option" where
  "find_first m [] = None"
| "find_first m (c # cs) = (case m (c # cs) of Some g \<Rightarrow> Some g | None \<Rightarrow> find_first m cs)"

text \<open>codeRegex: a backquote, one or more bytes that are not a backquote, a backquote.\<close>

definition match_code :: "string \<Rightarrow> (string \<times> string) option" where
  "match_code s =
     (case s of
        [] \<Rightarrow> None
      | c # r \<Rightarrow>
          (let inner = takeWhile (\<lambda>x. x \<noteq> CHR 0x60) r;
               after = dropWhile (\<lambda>x. x \<noteq> CHR 0x60) r
           in if c = CHR 0x60 \<and> inner \<noteq> [] \<and> after \<noteq> [] then Some (inner, tl after) else None))"

text \<open>imageRegex: \<open>![\<close>, the alt text up to \<open>]\<close> (it may be empty), \<open>](\<close>, a target up to \<open>)\<close>.\<close>

definition match_image :: "string \<Rightarrow> (string \<times> string \<times> string) option" where
  "match_image s =
     (if prefix ''!['' s then
        (let r = drop 2 s;
             alt = takeWhile (\<lambda>x. x \<noteq> CHR '']'') r;
             r1 = dropWhile (\<lambda>x. x \<noteq> CHR '']'') r
         in if prefix '']('' r1 then
              (let r2 = drop 2 r1;
                   src = takeWhile (\<lambda>x. x \<noteq> CHR '')'') r2;
                   r3 = dropWhile (\<lambda>x. x \<noteq> CHR '')'') r2
               in if src \<noteq> [] \<and> r3 \<noteq> [] then Some (alt, src, tl r3) else None)
            else None)
      else None)"

text \<open>linkRegex: as imageRegex without the \<open>!\<close>, and the label is not empty.\<close>

definition match_link :: "string \<Rightarrow> (string \<times> string \<times> string) option" where
  "match_link s =
     (if prefix ''['' s then
        (let r = drop 1 s;
             label = takeWhile (\<lambda>x. x \<noteq> CHR '']'') r;
             r1 = dropWhile (\<lambda>x. x \<noteq> CHR '']'') r
         in if label \<noteq> [] \<and> prefix '']('' r1 then
              (let r2 = drop 2 r1;
                   href = takeWhile (\<lambda>x. x \<noteq> CHR '')'') r2;
                   r3 = dropWhile (\<lambda>x. x \<noteq> CHR '')'') r2
               in if href \<noteq> [] \<and> r3 \<noteq> [] then Some (label, href, tl r3) else None)
            else None)
      else None)"

text \<open>boldRegex: two stars, one or more bytes that are not a star, two stars.\<close>

definition match_bold :: "string \<Rightarrow> (string \<times> string) option" where
  "match_bold s =
     (if prefix ''**'' s then
        (let r = drop 2 s;
             inner = takeWhile (\<lambda>x. x \<noteq> CHR ''*'') r;
             after = dropWhile (\<lambda>x. x \<noteq> CHR ''*'') r
         in if inner \<noteq> [] \<and> prefix ''**'' after then Some (inner, drop 2 after) else None)
      else None)"

text \<open>
  italicRegex after its first group: a star, one or more bytes that are neither a star nor
  a newline, a star, and then a white-space byte (the third group) or the end of the text
  (the third group is empty). The result is the second group, the third and the rest.
\<close>

definition match_italic_body :: "string \<Rightarrow> (string \<times> string \<times> string) option" where
  "match_italic_body s =
     (if prefix ''*'' s then
        (let r = drop 1 s;
             inner = takeWhile (\<lambda>x. x \<noteq> CHR ''*'') r;
             after = dropWhile (\<lambda>x. x \<noteq> CHR ''*'') r
         in if inner \<noteq> [] \<and> CHR 0x0A \<notin> set inner \<and> after \<noteq> [] then
              (case tl after of
                 [] \<Rightarrow> Some (inner, [], [])
               | d # ds \<Rightarrow> if re_space d then Some (inner, [d], ds) else None)
            else None)
      else None)"

text \<open>
  italicRegex: the first group is the start of the text (tried first, and only where the
  search is at the start of the whole text) or one white-space byte.
\<close>

definition match_italic :: "bool \<Rightarrow> string \<Rightarrow> (string \<times> string \<times> string \<times> string) option" where
  "match_italic at_start s =
     (case (if at_start then match_italic_body s else None) of
        Some (g2, g3, rest) \<Rightarrow> Some ([], g2, g3, rest)
      | None \<Rightarrow>
          (case s of
             [] \<Rightarrow> None
           | c # r \<Rightarrow>
               (if re_space c then
                  (case match_italic_body r of
                     Some (g2, g3, rest) \<Rightarrow> Some ([c], g2, g3, rest)
                   | None \<Rightarrow> None)
                else None)))"

text \<open>
  orderedListRegex, anchored at both ends: digits, a dot, white space, and one or more
  bytes that are not a newline up to the end of the text. The white space is greedy and
  gives one byte back to the last group when nothing else is left for it.
\<close>

definition match_ordered :: "string \<Rightarrow> (string \<times> string) option" where
  "match_ordered s =
     (let ds = takeWhile re_digit s; r = dropWhile re_digit s in
      if ds \<noteq> [] \<and> prefix ''.'' r then
        (let w = takeWhile re_space (drop 1 r); content = dropWhile re_space (drop 1 r) in
         if w = [] \<or> CHR 0x0A \<in> set content then None
         else if content \<noteq> [] then Some (ds, content)
         else if 2 \<le> length w \<and> last w \<noteq> CHR 0x0A then Some (ds, [last w])
         else None)
      else None)"

text \<open>What a match says about the string: the delimiters, the groups and the rest, in order.\<close>

lemma split_at_delim:
  assumes "dropWhile (\<lambda>x. x \<noteq> d) r \<noteq> []"
  shows "r = takeWhile (\<lambda>x. x \<noteq> d) r @ d # tl (dropWhile (\<lambda>x. x \<noteq> d) r)"
proof -
  let ?a = "dropWhile (\<lambda>x. x \<noteq> d) r"
  from assms have "\<not> (hd ?a \<noteq> d)" by (rule hd_dropWhile)
  with assms have "?a = d # tl ?a" by (cases ?a) auto
  moreover have "r = takeWhile (\<lambda>x. x \<noteq> d) r @ ?a" by simp
  ultimately show ?thesis by metis
qed

lemma delim_not_in_takeWhile: "d \<notin> set (takeWhile (\<lambda>x. x \<noteq> d) r)"
  by (auto dest: set_takeWhileD)

lemma prefix_drop_n: "prefix p s \<Longrightarrow> length p = n \<Longrightarrow> s = p @ drop n s"
  by (auto simp: prefix_def)

lemma match_code_shape:
  assumes "match_code s = Some (g, rest)"
  shows "s = CHR 0x60 # g @ CHR 0x60 # rest \<and> g \<noteq> [] \<and> CHR 0x60 \<notin> set g"
proof -
  from assms obtain c r where s: "s = c # r" by (cases s) (simp_all add: match_code_def)
  let ?a = "dropWhile (\<lambda>x. x \<noteq> CHR 0x60) r"
  from assms have c: "c = CHR 0x60" and g: "g = takeWhile (\<lambda>x. x \<noteq> CHR 0x60) r"
    and ne: "g \<noteq> []" "?a \<noteq> []" and rest: "rest = tl ?a"
    unfolding s match_code_def Let_def by (simp_all split: if_splits)
  from ne(2) have r: "r = g @ CHR 0x60 # rest" unfolding g rest by (rule split_at_delim)
  have "CHR 0x60 \<notin> set g" unfolding g by (rule delim_not_in_takeWhile)
  with r c ne(1) show ?thesis unfolding s by simp
qed

lemma match_image_shape:
  assumes "match_image s = Some (alt, src, rest)"
  shows "s = ''!['' @ alt @ '']('' @ src @ CHR '')'' # rest \<and> src \<noteq> []
         \<and> CHR '']'' \<notin> set alt \<and> CHR '')'' \<notin> set src"
proof -
  let ?r = "drop 2 s"
  let ?r1 = "dropWhile (\<lambda>x. x \<noteq> CHR '']'') ?r"
  let ?r2 = "drop 2 ?r1"
  let ?r3 = "dropWhile (\<lambda>x. x \<noteq> CHR '')'') ?r2"
  from assms have p1: "prefix ''!['' s" and p2: "prefix '']('' ?r1"
    and alt: "alt = takeWhile (\<lambda>x. x \<noteq> CHR '']'') ?r"
    and src: "src = takeWhile (\<lambda>x. x \<noteq> CHR '')'') ?r2"
    and ne: "src \<noteq> []" "?r3 \<noteq> []" and rest: "rest = tl ?r3"
    unfolding match_image_def Let_def by (simp_all split: if_splits)
  from p1 have s: "s = ''!['' @ ?r" by (rule prefix_drop_n) simp
  have r: "?r = alt @ ?r1" unfolding alt by simp
  from p2 have r1: "?r1 = '']('' @ ?r2" by (rule prefix_drop_n) simp
  from ne(2) have r2: "?r2 = src @ CHR '')'' # rest" unfolding src rest by (rule split_at_delim)
  have "s = ''!['' @ alt @ '']('' @ src @ CHR '')'' # rest"
    by (subst s, subst r, subst r1, subst r2) simp
  moreover have "CHR '']'' \<notin> set alt" unfolding alt by (rule delim_not_in_takeWhile)
  moreover have "CHR '')'' \<notin> set src" unfolding src by (rule delim_not_in_takeWhile)
  ultimately show ?thesis using ne(1) by blast
qed

lemma match_link_shape:
  assumes "match_link s = Some (label, href, rest)"
  shows "s = ''['' @ label @ '']('' @ href @ CHR '')'' # rest \<and> label \<noteq> [] \<and> href \<noteq> []
         \<and> CHR '']'' \<notin> set label \<and> CHR '')'' \<notin> set href"
proof -
  let ?r = "drop 1 s"
  let ?r1 = "dropWhile (\<lambda>x. x \<noteq> CHR '']'') ?r"
  let ?r2 = "drop 2 ?r1"
  let ?r3 = "dropWhile (\<lambda>x. x \<noteq> CHR '')'') ?r2"
  from assms have p1: "prefix ''['' s" and p2: "prefix '']('' ?r1"
    and label: "label = takeWhile (\<lambda>x. x \<noteq> CHR '']'') ?r"
    and href: "href = takeWhile (\<lambda>x. x \<noteq> CHR '')'') ?r2"
    and ne: "label \<noteq> []" "href \<noteq> []" "?r3 \<noteq> []" and rest: "rest = tl ?r3"
    unfolding match_link_def Let_def by (simp_all split: if_splits)
  from p1 have s: "s = ''['' @ ?r" by (rule prefix_drop_n) simp
  have r: "?r = label @ ?r1" unfolding label by simp
  from p2 have r1: "?r1 = '']('' @ ?r2" by (rule prefix_drop_n) simp
  from ne(3) have r2: "?r2 = href @ CHR '')'' # rest" unfolding href rest by (rule split_at_delim)
  have "s = ''['' @ label @ '']('' @ href @ CHR '')'' # rest"
    by (subst s, subst r, subst r1, subst r2) simp
  moreover have "CHR '']'' \<notin> set label" unfolding label by (rule delim_not_in_takeWhile)
  moreover have "CHR '')'' \<notin> set href" unfolding href by (rule delim_not_in_takeWhile)
  ultimately show ?thesis using ne(1,2) by blast
qed

lemma match_bold_shape:
  assumes "match_bold s = Some (g, rest)"
  shows "s = ''**'' @ g @ ''**'' @ rest \<and> g \<noteq> [] \<and> CHR ''*'' \<notin> set g"
proof -
  let ?r = "drop 2 s"
  let ?a = "dropWhile (\<lambda>x. x \<noteq> CHR ''*'') ?r"
  from assms have p1: "prefix ''**'' s" and p2: "prefix ''**'' ?a"
    and g: "g = takeWhile (\<lambda>x. x \<noteq> CHR ''*'') ?r" and ne: "g \<noteq> []"
    and rest: "rest = drop 2 ?a"
    unfolding match_bold_def Let_def by (simp_all split: if_splits)
  from p1 have s: "s = ''**'' @ ?r" by (rule prefix_drop_n) simp
  have r: "?r = g @ ?a" unfolding g by simp
  from p2 have a: "?a = ''**'' @ rest" unfolding rest by (rule prefix_drop_n) simp
  have "s = ''**'' @ g @ ''**'' @ rest"
    by (subst s, subst r, subst a) simp
  moreover have "CHR ''*'' \<notin> set g" unfolding g by (rule delim_not_in_takeWhile)
  ultimately show ?thesis using ne by blast
qed

lemma match_italic_body_shape:
  assumes "match_italic_body s = Some (g2, g3, rest)"
  shows "s = CHR ''*'' # g2 @ CHR ''*'' # g3 @ rest \<and> g2 \<noteq> [] \<and> CHR ''*'' \<notin> set g2
         \<and> CHR 0x0A \<notin> set g2 \<and> (g3 = [] \<and> rest = [] \<or> (\<exists>d. g3 = [d] \<and> re_space d))"
proof -
  let ?r = "drop 1 s"
  let ?g = "takeWhile (\<lambda>x. x \<noteq> CHR ''*'') ?r"
  let ?a = "dropWhile (\<lambda>x. x \<noteq> CHR ''*'') ?r"
  from assms have p1: "prefix ''*'' s" and ne: "?g \<noteq> []" "?a \<noteq> []"
    and nl: "CHR 0x0A \<notin> set ?g"
    and m: "(case tl ?a of [] \<Rightarrow> Some (?g, [], [])
            | d # ds \<Rightarrow> if re_space d then Some (?g, [d], ds) else None) = Some (g2, g3, rest)"
    unfolding match_italic_body_def Let_def by (simp_all split: if_splits)
  from m have g: "g2 = ?g"
    and tl: "tl ?a = g3 @ rest" "g3 = [] \<and> rest = [] \<or> (\<exists>d. g3 = [d] \<and> re_space d)"
    by (cases "tl ?a"; auto split: if_splits)+
  from p1 have s: "s = ''*'' @ ?r" by (rule prefix_drop_n) simp
  from ne(2) have r: "?r = g2 @ CHR ''*'' # tl ?a" unfolding g by (rule split_at_delim)
  have "s = CHR ''*'' # g2 @ CHR ''*'' # g3 @ rest"
    by (subst s, subst r, subst tl(1)) simp
  moreover have "CHR ''*'' \<notin> set g2" unfolding g by (rule delim_not_in_takeWhile)
  ultimately show ?thesis using ne(1) nl tl(2) unfolding g by blast
qed

lemma match_italic_shape:
  assumes "match_italic b s = Some (g1, g2, g3, rest)"
  shows "s = g1 @ CHR ''*'' # g2 @ CHR ''*'' # g3 @ rest \<and> g2 \<noteq> [] \<and> CHR ''*'' \<notin> set g2
         \<and> (g1 = [] \<or> (\<exists>c. g1 = [c] \<and> re_space c))"
proof (cases "if b then match_italic_body s else None")
  case (Some x)
  with assms have g1: "g1 = []" and m: "match_italic_body s = Some (g2, g3, rest)"
    by (auto simp: match_italic_def split: if_splits)
  from match_italic_body_shape [OF m] g1 show ?thesis by simp
next
  case None
  with assms obtain c r where s: "s = c # r" and c: "re_space c" and g1: "g1 = [c]"
    and m: "match_italic_body r = Some (g2, g3, rest)"
    by (cases s) (auto simp: match_italic_def split: if_splits option.splits)
  from match_italic_body_shape [OF m] s c g1 show ?thesis by simp
qed

lemma match_code_length: "match_code s = Some (g, rest) \<Longrightarrow> length rest < length s"
  by (drule match_code_shape) (erule conjE, erule ssubst, simp)

lemma match_image_length: "match_image s = Some (alt, src, rest) \<Longrightarrow> length rest < length s"
  by (drule match_image_shape) (erule conjE, erule ssubst, simp)

lemma match_link_length: "match_link s = Some (label, href, rest) \<Longrightarrow> length rest < length s"
  by (drule match_link_shape) (erule conjE, erule ssubst, simp)

lemma match_bold_length: "match_bold s = Some (g, rest) \<Longrightarrow> length rest < length s"
  by (drule match_bold_shape) (erule conjE, erule ssubst, simp)

lemma match_italic_length:
  "match_italic b s = Some (g1, g2, g3, rest) \<Longrightarrow> length rest < length s"
  by (drule match_italic_shape) (erule conjE, erule ssubst, simp)

section \<open>parseInline\<close>

text \<open>
  \<open>ReplaceAllStringFunc\<close> and \<open>ReplaceAllString\<close> walk the text from the left: where the
  expression matches, the replacement is written and the walk goes on after the match;
  where it does not, one byte is copied.
\<close>

definition placeholder :: "nat \<Rightarrow> string" where
  "placeholder n = ''__CODE'' @ string_of_nat n @ ''__''"

text \<open>
  The callback of the code pass stores the markup of the match under its placeholder.
  It runs codeRegex on the match again, as the source does.
\<close>

definition code_markup :: "string \<Rightarrow> string" where
  "code_markup m =
     (case find_first match_code m of
        Some (inner, _) \<Rightarrow> ''<code>'' @ inner @ ''</code>''
      | None \<Rightarrow> m)"

text \<open>
  The code pass: the text with each code span replaced by its placeholder, and the entries
  written to codePlaceholders in the order of the matches; the first argument is
  codeCounter. The keys differ, so the entries are the content of the Go map.
\<close>

function code_pass :: "nat \<Rightarrow> string \<Rightarrow> string \<times> (string \<times> string) list" where
  "code_pass n [] = ([], [])"
| "code_pass n (c # cs) =
     (case match_code (c # cs) of
        Some (inner, rest) \<Rightarrow>
          (case code_pass (Suc n) rest of
             (t, m) \<Rightarrow> (placeholder n @ t, (placeholder n, code_markup (matched (c # cs) rest)) # m))
      | None \<Rightarrow> (case code_pass n cs of (t, m) \<Rightarrow> (c # t, m)))"
  by pat_completeness auto
termination
  by (relation "measure (\<lambda>(n, s). length s)") (auto dest: match_code_length)

definition image_markup :: "string \<Rightarrow> string" where
  "image_markup m =
     (case find_first match_image m of
        Some (alt, src, _) \<Rightarrow>
          ''<img src='' @ [CHR 0x22] @ normalizeAssetPath src @ [CHR 0x22] @ '' alt='' @ [CHR 0x22]
            @ alt @ [CHR 0x22] @ ''/>''
      | None \<Rightarrow> m)"

function image_pass :: "string \<Rightarrow> string" where
  "image_pass [] = []"
| "image_pass (c # cs) =
     (case match_image (c # cs) of
        Some (alt, src, rest) \<Rightarrow> image_markup (matched (c # cs) rest) @ image_pass rest
      | None \<Rightarrow> c # image_pass cs)"
  by pat_completeness auto
termination
  by (relation "measure length") (auto dest: match_image_length)

definition link_markup :: "string \<Rightarrow> string" where
  "link_markup m =
     (case find_first match_link m of
        Some (label, href, _) \<Rightarrow>
          ''<a href='' @ [CHR 0x22] @ normalizeAssetPath href @ [CHR 0x22] @ ''>'' @ label @ ''</a>''
      | None \<Rightarrow> m)"

function link_pass :: "string \<Rightarrow> string" where
  "link_pass [] = []"
| "link_pass (c # cs) =
     (case match_link (c # cs) of
        Some (label, href, rest) \<Rightarrow> link_markup (matched (c # cs) rest) @ link_pass rest
      | None \<Rightarrow> c # link_pass cs)"
  by pat_completeness auto
termination
  by (relation "measure length") (auto dest: match_link_length)

text \<open>The bold pass, with the template \<open><strong>$1</strong>\<close>.\<close>

function bold_pass :: "string \<Rightarrow> string" where
  "bold_pass [] = []"
| "bold_pass (c # cs) =
     (case match_bold (c # cs) of
        Some (inner, rest) \<Rightarrow> ''<strong>'' @ inner @ ''</strong>'' @ bold_pass rest
      | None \<Rightarrow> c # bold_pass cs)"
  by pat_completeness auto
termination
  by (relation "measure length") (auto dest: match_bold_length)

text \<open>
  The italic pass, with the template \<open>$1<em>$2</em>$3\<close>. The flag says that the walk is at
  the start of the text, the only place where \<open>^\<close> matches.
\<close>

function italic_pass :: "bool \<Rightarrow> string \<Rightarrow> string" where
  "italic_pass at_start [] = []"
| "italic_pass at_start (c # cs) =
     (case match_italic at_start (c # cs) of
        Some (g1, g2, g3, rest) \<Rightarrow> g1 @ ''<em>'' @ g2 @ ''</em>'' @ g3 @ italic_pass False rest
      | None \<Rightarrow> c # italic_pass False cs)"
  by pat_completeness auto
termination
  by (relation "measure (\<lambda>(b, s). length s)") (auto dest: match_italic_length)

text \<open>
  \<open>strings.ReplaceAll s old new\<close> for an \<open>old\<close> that is not empty (a placeholder never
  is): the leftmost occurrences that do not overlap are replaced.
\<close>

function ReplaceAll :: "string \<Rightarrow> string \<Rightarrow> string \<Rightarrow> string" where
  "ReplaceAll [] old new = []"
| "ReplaceAll (c # cs) old new =
     (if old \<noteq> [] \<and> prefix old (c # cs) then new @ ReplaceAll (drop (length old) (c # cs)) old new
      else c # ReplaceAll cs old new)"
  by pat_completeness auto
termination
  by (relation "measure (\<lambda>(s, old, new). length s)") (auto simp: neq_Nil_conv)

text \<open>
  The last loop of parseInline ranges over the Go map codePlaceholders, in an order that
  Go leaves open. The order is a parameter of the model: a function that rearranges the
  entries. The properties below are proved for every such function.
\<close>

type_synonym map_order = "(string \<times> string) list \<Rightarrow> (string \<times> string) list"

definition range_order :: "map_order \<Rightarrow> bool" where
  "range_order ord \<longleftrightarrow> (\<forall>m. mset (ord m) = mset m)"

definition insertion_order :: map_order where
  "insertion_order m = m"

definition reverse_order :: map_order where
  "reverse_order m = rev m"

fun restore :: "(string \<times> string) list \<Rightarrow> string \<Rightarrow> string" where
  "restore [] text = text"
| "restore ((key, replacement) # m) text = restore m (ReplaceAll text key replacement)"

definition parseInline :: "map_order \<Rightarrow> string \<Rightarrow> string" where
  "parseInline ord text =
     (case code_pass 0 (EscapeString text) of
        (text1, codePlaceholders) \<Rightarrow>
          restore (ord codePlaceholders) (italic_pass True (bold_pass (link_pass (image_pass text1)))))"

section \<open>markdownToHTML\<close>

record md_state =
  result :: string
  inCodeBlock :: bool
  inUL :: bool
  inOL :: bool

definition WriteString :: "md_state \<Rightarrow> string \<Rightarrow> md_state" where
  "WriteString st s = st\<lparr>result := result st @ s\<rparr>"

definition close_ul :: "md_state \<Rightarrow> md_state" where
  "close_ul st = (if inUL st then (WriteString st ''</ul>\<newline>'')\<lparr>inUL := False\<rparr> else st)"

definition close_ol :: "md_state \<Rightarrow> md_state" where
  "close_ol st = (if inOL st then (WriteString st ''</ol>\<newline>'')\<lparr>inOL := False\<rparr> else st)"

definition open_ul :: "md_state \<Rightarrow> md_state" where
  "open_ul st = (if inUL st then st else (WriteString st ''<ul>\<newline>'')\<lparr>inUL := True\<rparr>)"

definition open_ol :: "md_state \<Rightarrow> md_state" where
  "open_ol st = (if inOL st then st else (WriteString st ''<ol>\<newline>'')\<lparr>inOL := True\<rparr>)"

text \<open>The number of \<open>#\<close> a line starts with.\<close>

definition heading_level :: "string \<Rightarrow> nat" where
  "heading_level t = length (takeWhile (\<lambda>c. c = CHR ''#'') t)"

text \<open>The body of the loop over the lines: the state after one line.\<close>

definition process_line :: "map_order \<Rightarrow> md_state \<Rightarrow> string \<Rightarrow> md_state" where
  "process_line ord st line =
     (let trimmed = TrimSpace line in
      if prefix ''```'' trimmed then
        (let st1 = close_ol (close_ul st) in
         if inCodeBlock st1 then (WriteString st1 ''</code></pre>'')\<lparr>inCodeBlock := False\<rparr>
         else (WriteString st1 ''<pre><code>'')\<lparr>inCodeBlock := True\<rparr>)
      else if inCodeBlock st then WriteString (WriteString st (EscapeString line)) ''\<newline>''
      else if prefix ''#'' trimmed \<and> heading_level trimmed \<le> 6 then
        (let level = heading_level trimmed;
             content = parseInline ord (TrimSpace (drop level trimmed))
         in WriteString st (''<h'' @ string_of_nat level @ ''>'' @ content
                             @ ''</h'' @ string_of_nat level @ ''>\<newline>''))
      else if trimmed = ''---'' \<or> trimmed = ''***'' \<or> trimmed = ''___'' then
        WriteString st ''<hr>\<newline>''
      else if prefix ''- '' trimmed \<or> prefix ''* '' trimmed then
        (let st1 = open_ul (close_ol st);
             content = parseInline ord (TrimPrefix (TrimPrefix trimmed ''- '') ''* '')
         in WriteString st1 (''<li>'' @ content @ ''</li>\<newline>''))
      else
        (case match_ordered trimmed of
           Some (number, item) \<Rightarrow>
             (let st1 = open_ol (close_ul st);
                  content = parseInline ord item
              in WriteString st1 (''<li>'' @ content @ ''</li>\<newline>''))
         | None \<Rightarrow>
             if trimmed \<noteq> [] then
               (let st1 = close_ol (close_ul st);
                    content = parseInline ord trimmed
                in WriteString st1 (''<p>'' @ content @ ''</p>\<newline>''))
             else st))"

definition init_state :: md_state where
  "init_state = \<lparr>result = [], inCodeBlock = False, inUL = False, inOL = False\<rparr>"

text \<open>The state after the loop has run over a list of lines.\<close>

definition run_lines :: "map_order \<Rightarrow> string list \<Rightarrow> md_state" where
  "run_lines ord lines = foldl (process_line ord) init_state lines"

definition finish :: "md_state \<Rightarrow> string" where
  "finish st =
     (let st1 = (if inCodeBlock st then WriteString st ''</code></pre>'' else st);
          st2 = (if inUL st1 then WriteString st1 ''</ul>\<newline>'' else st1);
          st3 = (if inOL st2 then WriteString st2 ''</ol>\<newline>'' else st2)
      in result st3)"

definition markdownToHTML :: "map_order \<Rightarrow> string \<Rightarrow> string" where
  "markdownToHTML ord md =
     (if md = [] then [] else finish (run_lines ord (Split md ''\<newline>'')))"

section \<open>parseMarkdown\<close>

text \<open>
  The loop of the heading fallback: the slides flushed so far, the lines of the current
  slide, and the code-block flag.
\<close>

definition heading_step :: "string list \<times> string list \<times> bool \<Rightarrow> string \<Rightarrow> string list \<times> string list \<times> bool" where
  "heading_step st line =
     (case st of (slides, currentSlide, inCode) \<Rightarrow>
        if prefix ''```'' line then (slides, currentSlide @ [line], \<not> inCode)
        else if \<not> inCode \<and> prefix ''#'' line then
          ((if currentSlide \<noteq> [] then slides @ [Join currentSlide ''\<newline>''] else slides),
           [line], inCode)
        else (slides, currentSlide @ [line], inCode))"

definition heading_slides :: "string list \<Rightarrow> string list" where
  "heading_slides lines =
     (case foldl heading_step ([], [], False) lines of
        (slides, currentSlide, inCode) \<Rightarrow>
          if currentSlide \<noteq> [] then slides @ [Join currentSlide ''\<newline>''] else slides)"

definition slide_break :: string where
  "slide_break = ''\<newline>---\<newline>''"

definition parseMarkdown :: "string \<Rightarrow> string list" where
  "parseMarkdown content =
     (let content = TrimSpace content;
          parts = Split content slide_break
      in if length parts = 1 then heading_slides (Split content ''\<newline>'')
         else filter (\<lambda>part. part \<noteq> []) (map TrimSpace parts))"

section \<open>parseFrontmatter\<close>


section \<open>Notions of the specification\<close>

text \<open>
  The separator path as the specification words it: a separator is a line that is exactly
  three hyphens with a newline before it and a newline after it, and the slides are the
  chunks of lines between the separators, trimmed, without the empty ones.
  \<open>line_chunks\<close> collects the lines of the current chunk; the first and the last line
  of the body are never separators.
\<close>

fun line_chunks :: "string list \<Rightarrow> string list \<Rightarrow> string list list" where
  "line_chunks cur [] = [cur]"
| "line_chunks cur [l] = [cur @ [l]]"
| "line_chunks cur (l # l' # ls) =
     (if l = ''---'' then cur # line_chunks [] (l' # ls) else line_chunks (cur @ [l]) (l' # ls))"

definition separator_chunks :: "string \<Rightarrow> string list" where
  "separator_chunks body =
     (case Split (TrimSpace body) ''\<newline>'' of
        [] \<Rightarrow> []
      | first # rest \<Rightarrow> map (\<lambda>c. Join c ''\<newline>'') (line_chunks [first] rest))"

definition claimed_slides :: "string \<Rightarrow> string list" where
  "claimed_slides body = filter (\<lambda>part. part \<noteq> []) (map TrimSpace (separator_chunks body))"



text \<open>
  Escaped text with markup: a string made of bytes other than \<open><\<close>, \<open>>\<close> and \<open>&\<close>, of
  the five entities of \<open>html.EscapeString\<close>, and of the tags of a given list. The tags
  that parseInline writes, the tags that markdownToHTML writes around them, and the four
  list tags are listed apart.
\<close>

definition entities :: "string list" where
  "entities = [''&amp;'', ''&#39;'', ''&lt;'', ''&gt;'', ''&#34;'']"

definition inline_tags :: "string list" where
  "inline_tags =
     [''<code>'', ''</code>'',
      ''<img src='' @ [CHR 0x22], [CHR 0x22] @ '' alt='' @ [CHR 0x22], [CHR 0x22] @ ''/>'',
      ''<a href='' @ [CHR 0x22], [CHR 0x22] @ ''>'', ''</a>'',
      ''<strong>'', ''</strong>'', ''<em>'', ''</em>'']"

definition block_tags :: "string list" where
  "block_tags =
     [''<p>'', ''</p>'', ''<hr>'', ''<li>'', ''</li>'', ''<pre>'', ''</pre>'',
      ''<h1>'', ''<h2>'', ''<h3>'', ''<h4>'', ''<h5>'', ''<h6>'',
      ''</h1>'', ''</h2>'', ''</h3>'', ''</h4>'', ''</h5>'', ''</h6>'']"

definition list_tags :: "string list" where
  "list_tags = [''<ul>'', ''</ul>'', ''<ol>'', ''</ol>'']"

inductive tagged :: "string list \<Rightarrow> string \<Rightarrow> bool" for T where
  Empty: "tagged T []"
| Plain: "c \<noteq> CHR ''<'' \<Longrightarrow> c \<noteq> CHR ''>'' \<Longrightarrow> c \<noteq> CHR ''&'' \<Longrightarrow> tagged T s \<Longrightarrow> tagged T (c # s)"
| Entity: "e \<in> set entities \<Longrightarrow> tagged T s \<Longrightarrow> tagged T (e @ s)"
| Tag: "t \<in> set T \<Longrightarrow> tagged T s \<Longrightarrow> tagged T (t @ s)"

definition line_tags :: "string list" where
  "line_tags = inline_tags @ block_tags"


text \<open>
  The bytes that the expressions of parseInline and its placeholders are built around.
  None of them occurs in an entity or in a tag.
\<close>

definition delimiter :: "char \<Rightarrow> bool" where
  "delimiter c \<longleftrightarrow>
     c = CHR 0x60 \<or> c = CHR ''!'' \<or> c = CHR ''['' \<or> c = CHR '']'' \<or> c = CHR ''('' \<or> c = CHR '')''
     \<or> c = CHR ''*'' \<or> c = CHR ''_'' \<or> c = CHR ''C'' \<or> c = CHR ''O'' \<or> c = CHR ''D''
     \<or> c = CHR ''E''"

definition no_delimiters :: "string list \<Rightarrow> bool" where
  "no_delimiters T \<longleftrightarrow> list_all (\<lambda>t. list_all (\<lambda>c. \<not> delimiter c) t) T"

text \<open>
  What the code pass leaves in codePlaceholders: every key is a placeholder and every
  value is escaped text with inline markup.
\<close>

definition code_entries :: "(string \<times> string) list \<Rightarrow> bool" where
  "code_entries m \<longleftrightarrow> list_all (\<lambda>(k, v). tagged inline_tags v \<and> k \<in> range placeholder) m"

text \<open>The closing tags of the lists that are open in a state.\<close>

definition closers :: "md_state \<Rightarrow> string" where
  "closers st = (if inUL st then ''</ul>\<newline>'' else []) @ (if inOL st then ''</ol>\<newline>'' else [])"

text \<open>
  The kinds of line of the block parser, each with the test markdownToHTML makes on the
  trimmed line. A heading line has one to six leading \<open>#\<close>; a paragraph line is a line
  of no other kind.
\<close>

definition fence_line :: "string \<Rightarrow> bool" where
  "fence_line line \<longleftrightarrow> prefix ''```'' (TrimSpace line)"

definition heading_line :: "string \<Rightarrow> bool" where
  "heading_line line \<longleftrightarrow> 1 \<le> heading_level (TrimSpace line) \<and> heading_level (TrimSpace line) \<le> 6"

definition rule_line :: "string \<Rightarrow> bool" where
  "rule_line line \<longleftrightarrow> TrimSpace line = ''---'' \<or> TrimSpace line = ''***'' \<or> TrimSpace line = ''___''"

definition blank_line :: "string \<Rightarrow> bool" where
  "blank_line line \<longleftrightarrow> TrimSpace line = []"

definition unordered_item :: "string \<Rightarrow> bool" where
  "unordered_item line \<longleftrightarrow> prefix ''- '' (TrimSpace line) \<or> prefix ''* '' (TrimSpace line)"

definition ordered_item :: "string \<Rightarrow> bool" where
  "ordered_item line \<longleftrightarrow> match_ordered (TrimSpace line) \<noteq> None"

definition paragraph_line :: "string \<Rightarrow> bool" where
  "paragraph_line line \<longleftrightarrow>
     \<not> (fence_line line \<or> heading_line line \<or> rule_line line \<or> unordered_item line
        \<or> ordered_item line \<or> blank_line line)"

text \<open>
  Outputs in which list regions neither nest nor interleave: text without list tags, and
  list tags that open a region only when none is open and close the region that is open.
  The first argument is the region the output ends in. A state is regular when at most
  one of its list flags is set and its output so far is of this form, ending in the
  region its flags name.
\<close>

datatype list_mode = NoList | InUL | InOL

inductive list_regions :: "list_mode \<Rightarrow> string \<Rightarrow> bool" where
  Start: "list_regions NoList []"
| Text: "list_regions q s \<Longrightarrow> tagged line_tags e \<Longrightarrow> list_regions q (s @ e)"
| OpenUL: "list_regions NoList s \<Longrightarrow> list_regions InUL (s @ ''<ul>'')"
| CloseUL: "list_regions InUL s \<Longrightarrow> list_regions NoList (s @ ''</ul>'')"
| OpenOL: "list_regions NoList s \<Longrightarrow> list_regions InOL (s @ ''<ol>'')"
| CloseOL: "list_regions InOL s \<Longrightarrow> list_regions NoList (s @ ''</ol>'')"

definition list_mode_of :: "md_state \<Rightarrow> list_mode" where
  "list_mode_of st = (if inUL st then InUL else if inOL st then InOL else NoList)"

definition regular :: "md_state \<Rightarrow> bool" where
  "regular st \<longleftrightarrow> (inUL st \<and> inOL st) = False \<and> list_regions (list_mode_of st) (result st)"

text \<open>
  The claim C6 words a heading line as one to six leading \<open>#\<close> followed by white space.
\<close>

definition claimed_heading_line :: "string \<Rightarrow> bool" where
  "claimed_heading_line line \<longleftrightarrow>
     heading_line line
     \<and> leading_space (drop (heading_level (TrimSpace line)) (TrimSpace line)) \<noteq> 0"



















section \<open>Lemmas on the library functions\<close>

lemma Split_no_sep: "sep \<noteq> [] \<Longrightarrow> Cut s sep = None \<Longrightarrow> Split s sep = [s]"
  by (subst Split.simps) simp

lemma Split_sep: "sep \<noteq> [] \<Longrightarrow> Cut s sep = Some (b, a) \<Longrightarrow> Split s sep = b # Split a sep"
  by (subst Split.simps) simp

lemma range_order_nil: "range_order ord \<Longrightarrow> ord [] = []"
proof -
  assume "range_order ord"
  then have "mset (ord []) = mset []" unfolding range_order_def by blast
  then show ?thesis by simp
qed

lemma range_order_set: "range_order ord \<Longrightarrow> set (ord m) = set m"
  by (metis range_order_def set_mset_mset)

lemma mset_pair:
  assumes "mset xs = mset [a, b]"
  shows "xs = [a, b] \<or> xs = [b, a]"
proof -
  from assms have "length xs = length [a, b]" by (rule mset_eq_length)
  then obtain x y where xs: "xs = [x, y]"
    by (cases xs; cases "tl xs") auto
  from assms have "add_mset x {#y#} = add_mset a {#b#}" unfolding xs by simp
  then have "x = a \<and> y = b \<or> x = b \<and> y = a"
    by (auto simp: add_eq_conv_ex)
  with xs show ?thesis by auto
qed

lemma range_order_pair:
  assumes "range_order ord"
  shows "ord [a, b] = [a, b] \<or> ord [a, b] = [b, a]"
proof -
  from assms have "mset (ord [a, b]) = mset [a, b]" unfolding range_order_def by blast
  then show ?thesis by (rule mset_pair)
qed

lemma range_order_insertion: "range_order insertion_order"
  by (simp add: range_order_def insertion_order_def)

lemma range_order_reverse: "range_order reverse_order"
  by (simp add: range_order_def reverse_order_def)

lemma Cut_None: "sep \<noteq> [] \<Longrightarrow> Cut s sep = None \<Longrightarrow> \<not> sublist sep s"
proof (induction s)
  case Nil
  then show ?case by simp
next
  case (Cons c cs)
  from Cons.prems have np: "\<not> prefix sep (c # cs)" and "Cut cs sep = None"
    by (auto split: if_splits option.splits)
  with Cons have "\<not> sublist sep cs" by simp
  with np show ?case by (simp add: sublist_Cons_right)
qed


lemma Cut_Some:
  assumes "sep \<noteq> []" and "Cut s sep = Some (b, a)"
  shows "s = b @ sep @ a \<and> \<not> sublist sep (b @ butlast sep)"
  using assms(2)
proof (induction s arbitrary: b)
  case Nil
  with assms(1) show ?case by simp
next
  case (Cons c cs)
  show ?case
  proof (cases "prefix sep (c # cs)")
    case True
    with Cons.prems have b: "b = []" and a: "a = drop (length sep) (c # cs)" by simp_all
    from True have "c # cs = sep @ a" unfolding a by (rule prefix_drop_n) simp
    moreover have "\<not> sublist sep (butlast sep)"
    proof
      assume "sublist sep (butlast sep)"
      then have "length sep \<le> length (butlast sep)" by (rule sublist_length_le)
      then have "length sep \<le> length sep - 1" unfolding length_butlast .
      moreover from assms(1) have "0 < length sep" by simp
      ultimately show False by arith
    qed
    ultimately show ?thesis using b by simp
  next
    case False
    with Cons.prems obtain b' where c: "Cut cs sep = Some (b', a)" and b: "b = c # b'"
      by (auto split: option.splits)
    from Cons.IH [OF c] have cs: "cs = b' @ sep @ a" and ns: "\<not> sublist sep (b' @ butlast sep)"
      by simp_all
    have "\<not> prefix sep (c # b' @ butlast sep)"
    proof
      assume "prefix sep (c # b' @ butlast sep)"
      moreover have "prefix (c # b' @ butlast sep) (c # cs)"
        unfolding cs by (simp add: prefixeq_butlast prefix_prefix)
      ultimately have "prefix sep (c # cs)" by (rule prefix_order.trans)
      with False show False by simp
    qed
    with ns have "\<not> sublist sep (c # b' @ butlast sep)" by (simp add: sublist_Cons_right)
    with cs b show ?thesis by simp
  qed
qed


lemma Cut_sublist:
  assumes "sep \<noteq> []" and "sublist sep s"
  shows "\<exists>b a. Cut s sep = Some (b, a)"
proof (cases "Cut s sep")
  case None
  with assms show ?thesis by (auto dest: Cut_None)
next
  case (Some x)
  then show ?thesis by (cases x) auto
qed

lemma Split_not_Nil: "Split s sep \<noteq> []"
  by (subst Split.simps) (auto split: option.splits)

lemma Join_Cons: "ys \<noteq> [] \<Longrightarrow> Join (x # ys) sep = x @ sep @ Join ys sep"
  by (cases ys) auto

lemma Join_Split: "sep \<noteq> [] \<Longrightarrow> Join (Split s sep) sep = s"
proof (induction s sep rule: Split.induct)
  case (1 s sep)
  show ?case
  proof (cases "Cut s sep")
    case None
    with 1 show ?thesis by (simp add: Split_no_sep)
  next
    case (Some x)
    obtain b a where x: "x = (b, a)" by (cases x)
    from "1.prems" Some x have "s = b @ sep @ a" by (simp add: Cut_Some)
    moreover from "1.IH" [OF "1.prems" Some x [symmetric]] "1.prems"
    have "Join (Split a sep) sep = a" by simp
    ultimately show ?thesis using "1.prems" Some x
      by (simp add: Split_sep Join_Cons Split_not_Nil)
  qed
qed

lemma sublist_append_left: "\<not> sublist p (u @ v) \<Longrightarrow> \<not> sublist p u"
  by (auto simp: sublist_append)

lemma Split_part_no_sep:
  "sep \<noteq> [] \<Longrightarrow> p \<in> set (Split s sep) \<Longrightarrow> \<not> sublist sep p"
proof (induction s sep rule: Split.induct)
  case (1 s sep)
  show ?case
  proof (cases "Cut s sep")
    case None
    with 1 show ?thesis by (simp add: Split_no_sep Cut_None)
  next
    case (Some x)
    obtain b a where x: "x = (b, a)" by (cases x)
    from "1.prems"(1) Some x have "\<not> sublist sep (b @ butlast sep)" by (simp add: Cut_Some)
    then have nb: "\<not> sublist sep b" by (rule sublist_append_left)
    from "1.prems" Some x have "p = b \<or> p \<in> set (Split a sep)" by (simp add: Split_sep)
    then show ?thesis
    proof
      assume "p = b"
      with nb show ?thesis by simp
    next
      assume "p \<in> set (Split a sep)"
      with "1.IH" [OF "1.prems"(1) Some x [symmetric]] "1.prems"(1) show ?thesis by simp
    qed
  qed
qed

lemma Split_length_sublist:
  assumes "sep \<noteq> []"
  shows "2 \<le> length (Split s sep) \<longleftrightarrow> sublist sep s"
proof (cases "Cut s sep")
  case None
  with assms show ?thesis by (simp add: Split_no_sep Cut_None)
next
  case (Some x)
  obtain b a where x: "x = (b, a)" by (cases x)
  from assms Some x have "s = b @ sep @ a" by (simp add: Cut_Some)
  then have "sublist sep s" by simp
  moreover have "Split a sep \<noteq> []" by (rule Split_not_Nil)
  then have "1 \<le> length (Split a sep)" by (cases "Split a sep") auto
  ultimately show ?thesis using assms Some x by (simp add: Split_sep)
qed

lemma slide_break_not_Nil: "slide_break \<noteq> []"
  by (simp add: slide_break_def)








lemma tagged_append: "tagged T a \<Longrightarrow> tagged T b \<Longrightarrow> tagged T (a @ b)"
  by (induction rule: tagged.induct) (auto intro: tagged.intros)

lemma tagged_mono: "tagged T s \<Longrightarrow> set T \<subseteq> set T' \<Longrightarrow> tagged T' s"
  by (induction rule: tagged.induct) (auto intro: tagged.intros)

lemma tagged_tag: "t \<in> set T \<Longrightarrow> tagged T t"
  using tagged.Tag [of t T "[]"] by (simp add: tagged.Empty)

lemma tagged_entity: "e \<in> set entities \<Longrightarrow> tagged T e"
  using tagged.Entity [of e T "[]"] by (simp add: tagged.Empty)

lemma delimiter_plain: "delimiter c \<Longrightarrow> c \<noteq> CHR ''<'' \<and> c \<noteq> CHR ''>'' \<and> c \<noteq> CHR ''&''"
  by (auto simp: delimiter_def)

lemma tagged_Cons_delimiter: "delimiter c \<Longrightarrow> tagged T s \<Longrightarrow> tagged T (c # s)"
  using delimiter_plain [of c] by (blast intro: tagged.Plain)

lemma entities_no_delimiter: "list_all (\<lambda>e. list_all (\<lambda>c. \<not> delimiter c) e) entities"
  by (simp add: entities_def delimiter_def)

lemma entity_no_delimiter: "e \<in> set entities \<Longrightarrow> c \<in> set e \<Longrightarrow> \<not> delimiter c"
  using entities_no_delimiter unfolding list_all_iff by blast

lemma tag_no_delimiter: "no_delimiters T \<Longrightarrow> t \<in> set T \<Longrightarrow> c \<in> set t \<Longrightarrow> \<not> delimiter c"
  unfolding no_delimiters_def list_all_iff by blast

lemma token_split:
  assumes "t @ s = a @ c # b" and "c \<notin> set t"
  shows "\<exists>a'. a = t @ a' \<and> s = a' @ c # b"
proof -
  from assms(1) obtain us where "t = a @ us \<and> us @ s = c # b \<or> t @ us = a \<and> s = us @ c # b"
    by (auto simp: append_eq_append_conv2)
  then show ?thesis
  proof
    assume h: "t = a @ us \<and> us @ s = c # b"
    show ?thesis
    proof (cases us)
      case Nil
      with h show ?thesis by simp
    next
      case (Cons u us')
      with h have "c \<in> set t" by auto
      with assms(2) show ?thesis by simp
    qed
  next
    assume "t @ us = a \<and> s = us @ c # b"
    then show ?thesis by auto
  qed
qed

lemma tagged_split:
  assumes "tagged T s" and "s = a @ c # b" and "delimiter c" and "no_delimiters T"
  shows "tagged T a \<and> tagged T b"
  using assms(1,2)
proof (induction arbitrary: a rule: tagged.induct)
  case Empty
  then show ?case by simp
next
  case (Plain d s)
  show ?case
  proof (cases a)
    case Nil
    with Plain.prems have "s = b" by simp
    with Plain.hyps(4) Nil show ?thesis by (simp add: tagged.Empty)
  next
    case (Cons x a')
    with Plain.prems have dx: "d = x" and s: "s = a' @ c # b" by simp_all
    from Plain.IH [OF s] have "tagged T a'" and tb: "tagged T b" by simp_all
    with Plain.hyps(1,2,3) have "tagged T (d # a')" by (intro tagged.Plain)
    with tb show ?thesis unfolding Cons dx by simp
  qed
next
  case (Entity e s)
  from Entity.hyps(1) assms(3) have "c \<notin> set e" by (auto dest: entity_no_delimiter)
  from token_split [OF Entity.prems this] obtain a' where a: "a = e @ a'" and s: "s = a' @ c # b"
    by blast
  from Entity.IH [OF s] have "tagged T a'" and tb: "tagged T b" by simp_all
  with Entity.hyps(1) have "tagged T (e @ a')" by (intro tagged.Entity)
  with tb show ?case unfolding a by simp
next
  case (Tag t s)
  from Tag.hyps(1) assms(3,4) have "c \<notin> set t" by (auto dest: tag_no_delimiter)
  from token_split [OF Tag.prems this] obtain a' where a: "a = t @ a'" and s: "s = a' @ c # b"
    by blast
  from Tag.IH [OF s] have "tagged T a'" and tb: "tagged T b" by simp_all
  with Tag.hyps(1) have "tagged T (t @ a')" by (intro tagged.Tag)
  with tb show ?case unfolding a by simp
qed

lemma no_delimiters_inline: "no_delimiters inline_tags"
  by (simp add: no_delimiters_def inline_tags_def delimiter_def)

lemma no_delimiters_all: "no_delimiters (inline_tags @ block_tags @ list_tags)"
  by (simp add: no_delimiters_def inline_tags_def block_tags_def list_tags_def delimiter_def)

lemma tagged_escape_char: "tagged T (escape_char c)"
proof (cases "c = CHR ''&'' \<or> c = CHR 0x27 \<or> c = CHR ''<'' \<or> c = CHR ''>'' \<or> c = CHR 0x22")
  case True
  then have "escape_char c \<in> set entities"
    by (auto simp: escape_char_def entities_def)
  then show ?thesis by (rule tagged_entity)
next
  case False
  then have "escape_char c = [c]" by (simp add: escape_char_def)
  with False show ?thesis by (simp add: tagged.Plain tagged.Empty)
qed

lemma tagged_EscapeString: "tagged T (EscapeString s)"
proof (induction s)
  case Nil
  show ?case by (simp add: EscapeString_def tagged.Empty)
next
  case (Cons c s)
  have "EscapeString (c # s) = escape_char c @ EscapeString s"
    by (simp add: EscapeString_def)
  with Cons show ?case by (simp add: tagged_append tagged_escape_char)
qed

subsection \<open>parseInline writes escaped text with inline tags\<close>

lemma tagged_split_iff:
  "no_delimiters T \<Longrightarrow> delimiter c \<Longrightarrow> tagged T (a @ c # b) \<longleftrightarrow> tagged T a \<and> tagged T b"
  using tagged_split [of T "a @ c # b" a c b]
  by (auto intro: tagged_append tagged_Cons_delimiter)

lemma tagged_Cons_iff:
  "no_delimiters T \<Longrightarrow> delimiter c \<Longrightarrow> tagged T (c # b) \<longleftrightarrow> tagged T b"
  using tagged_split_iff [of T c "[]" b] by (simp add: tagged.Empty)

lemmas split_tagged = tagged_split_iff tagged_Cons_iff no_delimiters_inline delimiter_def

lemma tagged_normalizeAssetPath: "tagged T src \<Longrightarrow> tagged T (normalizeAssetPath src)"
  by (auto simp: normalizeAssetPath_def Let_def intro!: tagged.Plain)

lemma find_first_Some:
  "find_first m s = Some g \<Longrightarrow> \<exists>pre suf. s = pre @ suf \<and> m suf = Some g"
proof (induction s)
  case Nil
  then show ?case by simp
next
  case (Cons c cs)
  show ?case
  proof (cases "m (c # cs)")
    case None
    with Cons.prems have "find_first m cs = Some g" by simp
    from Cons.IH [OF this] obtain pre suf where "cs = pre @ suf" and "m suf = Some g" by blast
    then have "c # cs = (c # pre) @ suf \<and> m suf = Some g" by simp
    then show ?thesis by blast
  next
    case (Some x)
    with Cons.prems have "c # cs = [] @ (c # cs) \<and> m (c # cs) = Some g" by simp
    then show ?thesis by blast
  qed
qed

lemma tagged_image_markup:
  assumes "tagged inline_tags m"
  shows "tagged inline_tags (image_markup m)"
proof (cases "find_first match_image m")
  case None
  with assms show ?thesis by (simp add: image_markup_def)
next
  case (Some x)
  obtain alt src r where x: "x = (alt, src, r)" by (cases x)
  from find_first_Some [OF Some] x obtain pre suf where m: "m = pre @ suf"
    and ms: "match_image suf = Some (alt, src, r)" by blast
  from match_image_shape [OF ms]
  have suf: "suf = ''!['' @ alt @ '']('' @ src @ CHR '')'' # r" by simp
  from assms have "tagged inline_tags alt \<and> tagged inline_tags src"
    unfolding m suf by (simp add: split_tagged)
  then have ta: "tagged inline_tags alt" and ts: "tagged inline_tags (normalizeAssetPath src)"
    by (simp_all add: tagged_normalizeAssetPath)
  have "image_markup m = (''<img src='' @ [CHR 0x22]) @ normalizeAssetPath src
          @ ([CHR 0x22] @ '' alt='' @ [CHR 0x22]) @ alt @ ([CHR 0x22] @ ''/>'')"
    using Some x by (simp add: image_markup_def)
  moreover have "tagged inline_tags ((''<img src='' @ [CHR 0x22]) @ normalizeAssetPath src
          @ ([CHR 0x22] @ '' alt='' @ [CHR 0x22]) @ alt @ ([CHR 0x22] @ ''/>''))"
    by (intro tagged_append tagged_tag ta ts) (simp_all add: inline_tags_def)
  ultimately show ?thesis by simp
qed

lemma matched_append: "matched (m @ rest) rest = m"
  by (simp add: matched_def)

lemma matched_image:
  assumes "match_image s = Some (alt, src, rest)"
  shows "matched s rest = ''!['' @ alt @ '']('' @ src @ '')''"
proof -
  from match_image_shape [OF assms]
  have "s = (''!['' @ alt @ '']('' @ src @ '')'') @ rest" by simp
  then show ?thesis by (simp only: matched_append)
qed

lemma image_pass_tagged:
  "tagged inline_tags (p @ s) \<Longrightarrow> tagged inline_tags (p @ image_pass s)"
proof (induction "length s" arbitrary: s p rule: less_induct)
  case less
  show ?case
  proof (cases s)
    case Nil
    with less.prems show ?thesis by simp
  next
    case (Cons c cs)
    show ?thesis
    proof (cases "match_image (c # cs)")
      case None
      from less.prems have "tagged inline_tags ((p @ [c]) @ cs)" by (simp add: Cons)
      moreover have "length cs < length s" by (simp add: Cons)
      ultimately have "tagged inline_tags ((p @ [c]) @ image_pass cs)" by (rule less.hyps [rotated])
      with None show ?thesis by (simp add: Cons)
    next
      case (Some x)
      obtain alt src rest where x: "x = (alt, src, rest)" by (cases x)
      with Some have m: "match_image (c # cs) = Some (alt, src, rest)" by simp
      from match_image_shape [OF m]
      have sh: "c # cs = ''!['' @ alt @ '']('' @ src @ CHR '')'' # rest" by simp
      from less.prems have parts: "tagged inline_tags p \<and> tagged inline_tags alt
          \<and> tagged inline_tags src \<and> tagged inline_tags rest"
        unfolding Cons sh by (simp add: split_tagged)
      then have "tagged inline_tags (''!['' @ alt @ '']('' @ src @ '')'')"
        by (simp add: split_tagged tagged.Empty)
      then have "tagged inline_tags (matched (c # cs) rest)" by (simp add: matched_image [OF m])
      then have "tagged inline_tags (image_markup (matched (c # cs) rest))"
        by (rule tagged_image_markup)
      with parts have "tagged inline_tags ((p @ image_markup (matched (c # cs) rest)) @ rest)"
        by (simp add: tagged_append)
      moreover from match_image_length [OF m] have "length rest < length s" by (simp add: Cons)
      ultimately have "tagged inline_tags ((p @ image_markup (matched (c # cs) rest)) @ image_pass rest)"
        by (rule less.hyps [rotated])
      with m show ?thesis by (simp add: Cons)
    qed
  qed
qed

lemma tagged_link_markup:
  assumes "tagged inline_tags m"
  shows "tagged inline_tags (link_markup m)"
proof (cases "find_first match_link m")
  case None
  with assms show ?thesis by (simp add: link_markup_def)
next
  case (Some x)
  obtain label href r where x: "x = (label, href, r)" by (cases x)
  from find_first_Some [OF Some] x obtain pre suf where m: "m = pre @ suf"
    and ms: "match_link suf = Some (label, href, r)" by blast
  from match_link_shape [OF ms]
  have suf: "suf = ''['' @ label @ '']('' @ href @ CHR '')'' # r" by simp
  from assms have "tagged inline_tags label \<and> tagged inline_tags href"
    unfolding m suf by (simp add: split_tagged)
  then have tl: "tagged inline_tags label" and th: "tagged inline_tags (normalizeAssetPath href)"
    by (simp_all add: tagged_normalizeAssetPath)
  have "link_markup m = (''<a href='' @ [CHR 0x22]) @ normalizeAssetPath href
          @ ([CHR 0x22] @ ''>'') @ label @ ''</a>''"
    using Some x by (simp add: link_markup_def)
  moreover have "tagged inline_tags ((''<a href='' @ [CHR 0x22]) @ normalizeAssetPath href
          @ ([CHR 0x22] @ ''>'') @ label @ ''</a>'')"
    by (intro tagged_append tagged_tag tl th) (simp_all add: inline_tags_def)
  ultimately show ?thesis by simp
qed

lemma matched_link:
  assumes "match_link s = Some (label, href, rest)"
  shows "matched s rest = ''['' @ label @ '']('' @ href @ '')''"
proof -
  from match_link_shape [OF assms]
  have "s = (''['' @ label @ '']('' @ href @ '')'') @ rest" by simp
  then show ?thesis by (simp only: matched_append)
qed

lemma link_pass_tagged:
  "tagged inline_tags (p @ s) \<Longrightarrow> tagged inline_tags (p @ link_pass s)"
proof (induction "length s" arbitrary: s p rule: less_induct)
  case less
  show ?case
  proof (cases s)
    case Nil
    with less.prems show ?thesis by simp
  next
    case (Cons c cs)
    show ?thesis
    proof (cases "match_link (c # cs)")
      case None
      from less.prems have "tagged inline_tags ((p @ [c]) @ cs)" by (simp add: Cons)
      moreover have "length cs < length s" by (simp add: Cons)
      ultimately have "tagged inline_tags ((p @ [c]) @ link_pass cs)" by (rule less.hyps [rotated])
      with None show ?thesis by (simp add: Cons)
    next
      case (Some x)
      obtain label href rest where x: "x = (label, href, rest)" by (cases x)
      with Some have m: "match_link (c # cs) = Some (label, href, rest)" by simp
      from match_link_shape [OF m]
      have sh: "c # cs = ''['' @ label @ '']('' @ href @ CHR '')'' # rest" by simp
      from less.prems have parts: "tagged inline_tags p \<and> tagged inline_tags label
          \<and> tagged inline_tags href \<and> tagged inline_tags rest"
        unfolding Cons sh by (simp add: split_tagged)
      then have "tagged inline_tags (''['' @ label @ '']('' @ href @ '')'')"
        by (simp add: split_tagged tagged.Empty)
      then have "tagged inline_tags (matched (c # cs) rest)" by (simp add: matched_link [OF m])
      then have "tagged inline_tags (link_markup (matched (c # cs) rest))"
        by (rule tagged_link_markup)
      with parts have "tagged inline_tags ((p @ link_markup (matched (c # cs) rest)) @ rest)"
        by (simp add: tagged_append)
      moreover from match_link_length [OF m] have "length rest < length s" by (simp add: Cons)
      ultimately have "tagged inline_tags ((p @ link_markup (matched (c # cs) rest)) @ link_pass rest)"
        by (rule less.hyps [rotated])
      with m show ?thesis by (simp add: Cons)
    qed
  qed
qed

lemma bold_pass_tagged:
  "tagged inline_tags (p @ s) \<Longrightarrow> tagged inline_tags (p @ bold_pass s)"
proof (induction "length s" arbitrary: s p rule: less_induct)
  case less
  show ?case
  proof (cases s)
    case Nil
    with less.prems show ?thesis by simp
  next
    case (Cons c cs)
    show ?thesis
    proof (cases "match_bold (c # cs)")
      case None
      from less.prems have "tagged inline_tags ((p @ [c]) @ cs)" by (simp add: Cons)
      moreover have "length cs < length s" by (simp add: Cons)
      ultimately have "tagged inline_tags ((p @ [c]) @ bold_pass cs)" by (rule less.hyps [rotated])
      with None show ?thesis by (simp add: Cons)
    next
      case (Some x)
      obtain inner rest where x: "x = (inner, rest)" by (cases x)
      with Some have m: "match_bold (c # cs) = Some (inner, rest)" by simp
      from match_bold_shape [OF m]
      have sh: "c # cs = ''**'' @ inner @ ''**'' @ rest" by simp
      from less.prems have parts: "tagged inline_tags p \<and> tagged inline_tags inner
          \<and> tagged inline_tags rest"
        unfolding Cons sh by (simp add: split_tagged)
      from parts have r1: "tagged inline_tags rest" by simp
      have r2: "tagged inline_tags (''</strong>'' @ rest)"
        by (rule tagged.Tag [OF _ r1]) (simp add: inline_tags_def)
      have r3: "tagged inline_tags (inner @ ''</strong>'' @ rest)"
        by (rule tagged_append [OF _ r2]) (simp add: parts)
      have r4: "tagged inline_tags (''<strong>'' @ inner @ ''</strong>'' @ rest)"
        by (rule tagged.Tag [OF _ r3]) (simp add: inline_tags_def)
      have "tagged inline_tags (p @ ''<strong>'' @ inner @ ''</strong>'' @ rest)"
        by (rule tagged_append [OF _ r4]) (simp add: parts)
      then have "tagged inline_tags ((p @ ''<strong>'' @ inner @ ''</strong>'') @ rest)"
        by simp
      moreover from match_bold_length [OF m] have "length rest < length s" by (simp add: Cons)
      ultimately have "tagged inline_tags ((p @ ''<strong>'' @ inner @ ''</strong>'') @ bold_pass rest)"
        by (rule less.hyps [rotated])
      with m show ?thesis by (simp add: Cons)
    qed
  qed
qed

lemma italic_pass_tagged:
  "tagged inline_tags (p @ s) \<Longrightarrow> tagged inline_tags (p @ italic_pass b s)"
proof (induction "length s" arbitrary: s p b rule: less_induct)
  case less
  show ?case
  proof (cases s)
    case Nil
    with less.prems show ?thesis by simp
  next
    case (Cons c cs)
    show ?thesis
    proof (cases "match_italic b (c # cs)")
      case None
      from less.prems have "tagged inline_tags ((p @ [c]) @ cs)" by (simp add: Cons)
      moreover have "length cs < length s" by (simp add: Cons)
      ultimately have "tagged inline_tags ((p @ [c]) @ italic_pass False cs)"
        by (rule less.hyps [rotated])
      with None show ?thesis by (simp add: Cons)
    next
      case (Some x)
      obtain g1 g2 g3 rest where x: "x = (g1, g2, g3, rest)" by (cases x)
      with Some have m: "match_italic b (c # cs) = Some (g1, g2, g3, rest)" by simp
      from match_italic_shape [OF m]
      have sh: "c # cs = g1 @ CHR ''*'' # g2 @ CHR ''*'' # g3 @ rest" by simp
      from less.prems have "tagged inline_tags ((p @ g1) @ CHR ''*'' # g2 @ CHR ''*'' # (g3 @ rest))"
        unfolding Cons sh by simp
      then have parts: "tagged inline_tags (p @ g1) \<and> tagged inline_tags g2
          \<and> tagged inline_tags (g3 @ rest)"
        by (simp only: split_tagged simp_thms)
      from parts have r1: "tagged inline_tags (g3 @ rest)" by simp
      have r2: "tagged inline_tags (''</em>'' @ (g3 @ rest))"
        by (rule tagged.Tag [OF _ r1]) (simp add: inline_tags_def)
      have r3: "tagged inline_tags (g2 @ ''</em>'' @ (g3 @ rest))"
        by (rule tagged_append [OF _ r2]) (simp add: parts)
      have r4: "tagged inline_tags (''<em>'' @ g2 @ ''</em>'' @ (g3 @ rest))"
        by (rule tagged.Tag [OF _ r3]) (simp add: inline_tags_def)
      have "tagged inline_tags ((p @ g1) @ ''<em>'' @ g2 @ ''</em>'' @ (g3 @ rest))"
        by (rule tagged_append [OF _ r4]) (simp add: parts)
      then have "tagged inline_tags ((p @ g1 @ ''<em>'' @ g2 @ ''</em>'' @ g3) @ rest)"
        by simp
      moreover from match_italic_length [OF m] have "length rest < length s" by (simp add: Cons)
      ultimately have "tagged inline_tags ((p @ g1 @ ''<em>'' @ g2 @ ''</em>'' @ g3) @ italic_pass False rest)"
        by (rule less.hyps [rotated])
      with m show ?thesis by (simp add: Cons)
    qed
  qed
qed

lemma string_of_nat_digits: "c \<in> set (string_of_nat n) \<Longrightarrow> re_digit c"
proof (induction n rule: string_of_nat.induct)
  case (1 n)
  show ?case
  proof (cases "n < 10")
    case True
    with "1.prems" have "c = char_of (48 + n)" by (simp add: string_of_nat.simps)
    with True show ?thesis by (simp add: re_digit_def)
  next
    case False
    with "1.prems" have "c \<in> set (string_of_nat (n div 10)) \<or> c = char_of (48 + n mod 10)"
      by (subst (asm) string_of_nat.simps) auto
    then show ?thesis
    proof
      assume "c \<in> set (string_of_nat (n div 10))"
      with "1.IH" False show ?thesis by simp
    next
      assume "c = char_of (48 + n mod 10)"
      moreover have "n mod 10 < 10" by simp
      ultimately show ?thesis by (simp add: re_digit_def)
    qed
  qed
qed

lemma tagged_plain_chars:
  "(\<And>c. c \<in> set s \<Longrightarrow> c \<noteq> CHR ''<'' \<and> c \<noteq> CHR ''>'' \<and> c \<noteq> CHR ''&'') \<Longrightarrow> tagged T s"
  by (induction s) (auto intro: tagged.intros)

lemma digit_plain: "re_digit c \<Longrightarrow> c \<noteq> CHR ''<'' \<and> c \<noteq> CHR ''>'' \<and> c \<noteq> CHR ''&''"
  by (auto simp: re_digit_def)

lemma tagged_string_of_nat: "tagged T (string_of_nat n)"
  by (rule tagged_plain_chars) (auto dest: string_of_nat_digits digit_plain)

lemma tagged_placeholder: "tagged inline_tags (placeholder n)"
  by (simp add: placeholder_def split_tagged tagged_string_of_nat tagged.Empty)

lemma tagged_code_markup:
  assumes "tagged inline_tags m"
  shows "tagged inline_tags (code_markup m)"
proof (cases "find_first match_code m")
  case None
  with assms show ?thesis by (simp add: code_markup_def)
next
  case (Some x)
  obtain inner r where x: "x = (inner, r)" by (cases x)
  from find_first_Some [OF Some] x obtain pre suf where m: "m = pre @ suf"
    and ms: "match_code suf = Some (inner, r)" by blast
  from match_code_shape [OF ms]
  have suf: "suf = CHR 0x60 # inner @ CHR 0x60 # r" by simp
  from assms have ti: "tagged inline_tags inner"
    unfolding m suf by (simp add: split_tagged)
  have r2: "tagged inline_tags (''</code>'')"
    by (rule tagged_tag) (simp add: inline_tags_def)
  have r3: "tagged inline_tags (inner @ ''</code>'')"
    by (rule tagged_append [OF ti r2])
  have "tagged inline_tags (''<code>'' @ inner @ ''</code>'')"
    by (rule tagged.Tag [OF _ r3]) (simp add: inline_tags_def)
  with Some x show ?thesis by (simp add: code_markup_def)
qed

lemma matched_code:
  assumes "match_code s = Some (inner, rest)"
  shows "matched s rest = CHR 0x60 # inner @ [CHR 0x60]"
proof -
  from match_code_shape [OF assms]
  have "s = (CHR 0x60 # inner @ [CHR 0x60]) @ rest" by simp
  then show ?thesis by (simp only: matched_append)
qed

lemma code_pass_tagged:
  "tagged inline_tags (p @ s) \<Longrightarrow>
     tagged inline_tags (p @ fst (code_pass n s)) \<and> code_entries (snd (code_pass n s))"
proof (induction "length s" arbitrary: s p n rule: less_induct)
  case less
  show ?case
  proof (cases s)
    case Nil
    with less.prems show ?thesis by (simp add: code_entries_def)
  next
    case (Cons c cs)
    show ?thesis
    proof (cases "match_code (c # cs)")
      case None
      from less.prems have "tagged inline_tags ((p @ [c]) @ cs)" by (simp add: Cons)
      moreover have "length cs < length s" by (simp add: Cons)
      ultimately have "tagged inline_tags ((p @ [c]) @ fst (code_pass n cs))
          \<and> code_entries (snd (code_pass n cs))"
        by (rule less.hyps [rotated])
      moreover obtain t m where "code_pass n cs = (t, m)" by (cases "code_pass n cs")
      ultimately show ?thesis using None by (simp add: Cons)
    next
      case (Some x)
      obtain inner rest where x: "x = (inner, rest)" by (cases x)
      with Some have m: "match_code (c # cs) = Some (inner, rest)" by simp
      from match_code_shape [OF m]
      have sh: "c # cs = CHR 0x60 # inner @ CHR 0x60 # rest" by simp
      from less.prems have parts: "tagged inline_tags p \<and> tagged inline_tags inner
          \<and> tagged inline_tags rest"
        unfolding Cons sh by (simp add: split_tagged)
      then have "tagged inline_tags (CHR 0x60 # inner @ [CHR 0x60])"
        by (simp add: split_tagged tagged.Empty)
      then have "tagged inline_tags (matched (c # cs) rest)" by (simp only: matched_code [OF m])
      then have mk: "tagged inline_tags (code_markup (matched (c # cs) rest))"
        by (rule tagged_code_markup)
      from parts have r1: "tagged inline_tags rest" by simp
      have r2: "tagged inline_tags (placeholder n @ rest)"
        by (rule tagged_append [OF tagged_placeholder r1])
      have "tagged inline_tags (p @ placeholder n @ rest)"
        by (rule tagged_append [OF _ r2]) (simp add: parts)
      then have "tagged inline_tags ((p @ placeholder n) @ rest)" by simp
      moreover from match_code_length [OF m] have "length rest < length s" by (simp add: Cons)
      ultimately have "tagged inline_tags ((p @ placeholder n) @ fst (code_pass (Suc n) rest))
          \<and> code_entries (snd (code_pass (Suc n) rest))"
        by (rule less.hyps [rotated])
      moreover obtain t e where "code_pass (Suc n) rest = (t, e)"
        by (cases "code_pass (Suc n) rest")
      ultimately show ?thesis using m mk by (simp add: Cons code_entries_def)
    qed
  qed
qed

lemma ReplaceAll_tagged:
  "tagged inline_tags (p @ s) \<Longrightarrow> tagged inline_tags new \<Longrightarrow>
     tagged inline_tags (p @ ReplaceAll s (placeholder j) new)"
proof (induction "length s" arbitrary: s p rule: less_induct)
  case less
  show ?case
  proof (cases s)
    case Nil
    with less.prems show ?thesis by simp
  next
    case (Cons c cs)
    show ?thesis
    proof (cases "prefix (placeholder j) (c # cs)")
      case False
      from less.prems have t: "tagged inline_tags ((p @ [c]) @ cs)" by (simp add: Cons)
      have len: "length cs < length s" by (simp add: Cons)
      have "tagged inline_tags ((p @ [c]) @ ReplaceAll cs (placeholder j) new)"
        by (rule less.hyps [OF len t less.prems(2)])
      with False show ?thesis by (simp add: Cons)
    next
      case True
      define rest where "rest = drop (length (placeholder j)) (c # cs)"
      from True have sh: "c # cs = placeholder j @ rest"
        unfolding rest_def by (rule prefix_drop_n) simp
      from less.prems(1) have parts: "tagged inline_tags p \<and> tagged inline_tags rest"
        unfolding Cons sh by (simp add: placeholder_def split_tagged)
      then have r1: "tagged inline_tags rest" by simp
      have r2: "tagged inline_tags (new @ rest)"
        by (rule tagged_append [OF less.prems(2) r1])
      have "tagged inline_tags (p @ new @ rest)"
        by (rule tagged_append [OF _ r2]) (simp add: parts)
      then have t: "tagged inline_tags ((p @ new) @ rest)" by simp
      have "length (c # cs) = length (placeholder j) + length rest"
        by (subst sh) simp
      then have len: "length rest < length s" by (simp add: Cons placeholder_def)
      have "tagged inline_tags ((p @ new) @ ReplaceAll rest (placeholder j) new)"
        by (rule less.hyps [OF len t less.prems(2)])
      moreover have "placeholder j \<noteq> []" by (simp add: placeholder_def)
      ultimately show ?thesis using True by (simp add: Cons rest_def)
    qed
  qed
qed

lemma restore_tagged:
  "tagged inline_tags t \<Longrightarrow> code_entries m \<Longrightarrow> tagged inline_tags (restore m t)"
proof (induction m arbitrary: t)
  case Nil
  then show ?case by simp
next
  case (Cons e m)
  obtain k v where e: "e = (k, v)" by (cases e)
  from Cons.prems(2) e obtain j where k: "k = placeholder j" and v: "tagged inline_tags v"
    and m: "code_entries m"
    by (auto simp: code_entries_def)
  from Cons.prems(1) have "tagged inline_tags ([] @ t)" by simp
  then have "tagged inline_tags ([] @ ReplaceAll t (placeholder j) v)"
    using v by (rule ReplaceAll_tagged)
  then have "tagged inline_tags (ReplaceAll t k v)" by (simp add: k)
  from Cons.IH [OF this m] e show ?case by simp
qed

lemma code_entries_order: "range_order ord \<Longrightarrow> code_entries m \<Longrightarrow> code_entries (ord m)"
  by (simp add: code_entries_def list_all_iff range_order_set)

lemma parseInline_tagged:
  assumes "range_order ord"
  shows "tagged inline_tags (parseInline ord text)"
proof -
  obtain t1 m where cp: "code_pass 0 (EscapeString text) = (t1, m)"
    by (cases "code_pass 0 (EscapeString text)")
  have "tagged inline_tags ([] @ EscapeString text)" by (simp add: tagged_EscapeString)
  from code_pass_tagged [OF this, of 0] cp
  have t1: "tagged inline_tags ([] @ t1)" and m: "code_entries m" by simp_all
  from t1 have "tagged inline_tags ([] @ image_pass t1)" by (rule image_pass_tagged)
  then have "tagged inline_tags ([] @ link_pass (image_pass t1))"
    unfolding append_Nil by (intro link_pass_tagged [of "[]", unfolded append_Nil])
  then have "tagged inline_tags ([] @ bold_pass (link_pass (image_pass t1)))"
    unfolding append_Nil by (intro bold_pass_tagged [of "[]", unfolded append_Nil])
  then have "tagged inline_tags (italic_pass True (bold_pass (link_pass (image_pass t1))))"
    unfolding append_Nil by (intro italic_pass_tagged [of "[]", unfolded append_Nil])
  moreover from assms m have "code_entries (ord m)" by (rule code_entries_order)
  ultimately have "tagged inline_tags
      (restore (ord m) (italic_pass True (bold_pass (link_pass (image_pass t1)))))"
    by (rule restore_tagged)
  with cp show ?thesis by (simp add: parseInline_def)
qed

subsection \<open>The keys of codePlaceholders\<close>









text \<open>With at most one code span the order of the map plays no part.\<close>

lemma range_order_single:
  assumes "range_order ord"
  shows "ord [a] = [a]"
proof -
  from assms have "mset (ord [a]) = mset [a]" unfolding range_order_def by blast
  then show ?thesis by simp
qed

lemma parseInline_no_code:
  assumes "range_order ord" and "snd (code_pass 0 (EscapeString t)) = []"
  shows "parseInline ord t = parseInline insertion_order t"
proof -
  obtain x m where c: "code_pass 0 (EscapeString t) = (x, m)" by (cases "code_pass 0 (EscapeString t)")
  with assms(2) have "m = []" by simp
  with c range_order_nil [OF assms(1)] show ?thesis
    by (simp add: parseInline_def insertion_order_def)
qed

lemma parseInline_one_code:
  assumes "range_order ord" and "snd (code_pass 0 (EscapeString t)) = [e]"
  shows "parseInline ord t = parseInline insertion_order t"
proof -
  obtain x m where c: "code_pass 0 (EscapeString t) = (x, m)" by (cases "code_pass 0 (EscapeString t)")
  with assms(2) have "m = [e]" by simp
  with c range_order_single [OF assms(1)] show ?thesis
    by (simp add: parseInline_def insertion_order_def)
qed

subsection \<open>The cases of process_line\<close>

lemma heading_level_prefix: "prefix ''#'' t \<longleftrightarrow> 1 \<le> heading_level t"
  by (cases t) (auto simp: heading_level_def)

lemma result_WriteString [simp]: "result (WriteString st s) = result st @ s"
  by (simp add: WriteString_def)

lemma flags_WriteString [simp]:
  "inCodeBlock (WriteString st s) = inCodeBlock st"
  "inUL (WriteString st s) = inUL st"
  "inOL (WriteString st s) = inOL st"
  by (simp_all add: WriteString_def)

lemma close_lists:
  "close_ol (close_ul st) = st\<lparr>result := result st @ closers st, inUL := False, inOL := False\<rparr>"
  by (cases st) (simp add: close_ol_def close_ul_def closers_def WriteString_def)

lemma process_line_tests:
  "process_line ord st line =
     (if fence_line line then
        (let st1 = close_ol (close_ul st) in
         if inCodeBlock st1 then (WriteString st1 ''</code></pre>'')\<lparr>inCodeBlock := False\<rparr>
         else (WriteString st1 ''<pre><code>'')\<lparr>inCodeBlock := True\<rparr>)
      else if inCodeBlock st then WriteString (WriteString st (EscapeString line)) ''\<newline>''
      else if heading_line line then
        WriteString st (''<h'' @ string_of_nat (heading_level (TrimSpace line)) @ ''>''
          @ parseInline ord (TrimSpace (drop (heading_level (TrimSpace line)) (TrimSpace line)))
          @ ''</h'' @ string_of_nat (heading_level (TrimSpace line)) @ ''>\<newline>'')
      else if rule_line line then WriteString st ''<hr>\<newline>''
      else if unordered_item line then
        WriteString (open_ul (close_ol st))
          (''<li>'' @ parseInline ord (TrimPrefix (TrimPrefix (TrimSpace line) ''- '') ''* '')
            @ ''</li>\<newline>'')
      else
        (case match_ordered (TrimSpace line) of
           Some (number, item) \<Rightarrow>
             WriteString (open_ol (close_ul st)) (''<li>'' @ parseInline ord item @ ''</li>\<newline>'')
         | None \<Rightarrow>
             if blank_line line then st
             else WriteString (close_ol (close_ul st))
                    (''<p>'' @ parseInline ord (TrimSpace line) @ ''</p>\<newline>'')))"
  unfolding process_line_def Let_def fence_line_def heading_line_def rule_line_def
    unordered_item_def blank_line_def heading_level_prefix
  by simp

lemma process_line_fence:
  assumes "fence_line line"
  shows "process_line ord st line
         = st\<lparr>result := result st @ closers st
                  @ (if inCodeBlock st then ''</code></pre>'' else ''<pre><code>''),
               inCodeBlock := \<not> inCodeBlock st, inUL := False, inOL := False\<rparr>"
  using assms unfolding process_line_tests Let_def close_lists
  by (cases st) (simp add: WriteString_def)

lemma process_line_code:
  assumes "\<not> fence_line line" and "inCodeBlock st"
  shows "process_line ord st line = st\<lparr>result := result st @ EscapeString line @ ''\<newline>''\<rparr>"
  using assms unfolding process_line_tests
  by (cases st) (simp add: WriteString_def)

lemma heading_line_not_fence: "heading_line line \<Longrightarrow> \<not> fence_line line"
proof -
  assume "heading_line line"
  then have "prefix ''#'' (TrimSpace line)" by (simp add: heading_line_def heading_level_prefix)
  then show ?thesis unfolding fence_line_def by (cases "TrimSpace line") auto
qed

lemma process_line_heading:
  assumes "\<not> inCodeBlock st" and "heading_line line"
  shows "process_line ord st line
         = st\<lparr>result := result st @ ''<h'' @ string_of_nat (heading_level (TrimSpace line)) @ ''>''
                  @ parseInline ord (TrimSpace (drop (heading_level (TrimSpace line)) (TrimSpace line)))
                  @ ''</h'' @ string_of_nat (heading_level (TrimSpace line)) @ ''>\<newline>''\<rparr>"
  using assms heading_line_not_fence [OF assms(2)] unfolding process_line_tests
  by (cases st) (simp add: WriteString_def)

lemma rule_line_not_others:
  assumes "rule_line line"
  shows "\<not> fence_line line \<and> \<not> heading_line line \<and> \<not> unordered_item line \<and> \<not> blank_line line"
  using assms
  by (auto simp: rule_line_def fence_line_def heading_line_def unordered_item_def blank_line_def
      heading_level_def)

lemma process_line_rule:
  assumes "\<not> inCodeBlock st" and "rule_line line"
  shows "process_line ord st line = st\<lparr>result := result st @ ''<hr>\<newline>''\<rparr>"
  using assms rule_line_not_others [OF assms(2)] unfolding process_line_tests
  by (cases st) (simp add: WriteString_def)

lemma unordered_item_not_others:
  assumes "unordered_item line"
  shows "\<not> fence_line line \<and> \<not> heading_line line \<and> \<not> rule_line line \<and> \<not> blank_line line"
  using assms
  by (auto simp: rule_line_def fence_line_def heading_line_def unordered_item_def blank_line_def
      heading_level_def prefix_def)

lemma process_line_unordered:
  assumes "\<not> inCodeBlock st" and "unordered_item line"
  shows "process_line ord st line
         = st\<lparr>result := result st @ (if inOL st then ''</ol>\<newline>'' else [])
                  @ (if inUL st then [] else ''<ul>\<newline>'')
                  @ ''<li>'' @ parseInline ord (TrimPrefix (TrimPrefix (TrimSpace line) ''- '') ''* '')
                  @ ''</li>\<newline>'',
               inUL := True, inOL := False\<rparr>"
  using assms unordered_item_not_others [OF assms(2)] unfolding process_line_tests
  by (cases st) (simp add: WriteString_def open_ul_def close_ol_def)

lemma match_ordered_digit:
  assumes "match_ordered t = Some (n, item)"
  shows "\<exists>d ds. t = d # ds \<and> re_digit d"
proof -
  from assms have "takeWhile re_digit t \<noteq> []"
    by (auto simp: match_ordered_def Let_def split: if_splits)
  then show ?thesis by (cases t) (auto split: if_splits)
qed

lemma ordered_item_not_others:
  assumes "ordered_item line"
  shows "\<not> fence_line line \<and> \<not> heading_line line \<and> \<not> rule_line line \<and> \<not> blank_line line
         \<and> \<not> unordered_item line"
proof -
  from assms obtain n item where "match_ordered (TrimSpace line) = Some (n, item)"
    by (auto simp: ordered_item_def)
  from match_ordered_digit [OF this] obtain d ds where t: "TrimSpace line = d # ds" and d: "re_digit d"
    by blast
  from d have "d \<noteq> CHR 0x60 \<and> d \<noteq> CHR ''#'' \<and> d \<noteq> CHR ''-'' \<and> d \<noteq> CHR ''*'' \<and> d \<noteq> CHR ''_''"
    by (auto simp: re_digit_def)
  with t show ?thesis
    by (auto simp: rule_line_def fence_line_def heading_line_def unordered_item_def blank_line_def
        heading_level_def)
qed

lemma process_line_ordered:
  assumes "\<not> inCodeBlock st" and "match_ordered (TrimSpace line) = Some (n, item)"
  shows "process_line ord st line
         = st\<lparr>result := result st @ (if inUL st then ''</ul>\<newline>'' else [])
                  @ (if inOL st then [] else ''<ol>\<newline>'')
                  @ ''<li>'' @ parseInline ord item @ ''</li>\<newline>'',
               inUL := False, inOL := True\<rparr>"
proof -
  from assms(2) have "ordered_item line" by (simp add: ordered_item_def)
  from ordered_item_not_others [OF this] assms show ?thesis
    unfolding process_line_tests
    by (cases st) (simp add: WriteString_def open_ol_def close_ul_def)
qed

lemma process_line_blank:
  assumes "\<not> inCodeBlock st" and "blank_line line"
  shows "process_line ord st line = st"
proof -
  from assms(2) have "\<not> fence_line line" "\<not> heading_line line" "\<not> rule_line line"
    "\<not> unordered_item line" "match_ordered (TrimSpace line) = None"
    by (simp_all add: blank_line_def fence_line_def heading_line_def rule_line_def
        unordered_item_def heading_level_def match_ordered_def)
  with assms show ?thesis unfolding process_line_tests by simp
qed

lemma process_line_paragraph:
  assumes "\<not> inCodeBlock st" and "paragraph_line line"
  shows "process_line ord st line
         = st\<lparr>result := result st @ closers st @ ''<p>'' @ parseInline ord (TrimSpace line)
                  @ ''</p>\<newline>'',
               inUL := False, inOL := False\<rparr>"
proof -
  from assms(2) have "\<not> fence_line line" "\<not> heading_line line" "\<not> rule_line line"
    "\<not> unordered_item line" "\<not> blank_line line"
    by (simp_all add: paragraph_line_def)
  moreover from assms(2) have "\<not> ordered_item line" by (simp add: paragraph_line_def)
  then have "match_ordered (TrimSpace line) = None" unfolding ordered_item_def by blast
  ultimately show ?thesis using assms(1)
    unfolding process_line_tests close_lists
    by (cases st) (simp add: WriteString_def)
qed

text \<open>Every line falls under one of the cases above.\<close>

lemma line_cases:
  "fence_line line \<or> heading_line line \<or> rule_line line \<or> unordered_item line
   \<or> ordered_item line \<or> blank_line line \<or> paragraph_line line"
  by (auto simp: paragraph_line_def)

subsection \<open>The output of markdownToHTML\<close>

lemma tag_at_less:
  assumes "tagged T s" and "s = a @ CHR ''<'' # b"
    and "list_all (\<lambda>t. CHR ''<'' \<notin> set (tl t)) T"
  shows "\<exists>t \<in> set T. prefix t (CHR ''<'' # b)"
  using assms(1,2)
proof (induction arbitrary: a rule: tagged.induct)
  case Empty
  then show ?case by simp
next
  case (Plain d s)
  show ?case
  proof (cases a)
    case Nil
    with Plain.prems Plain.hyps(1) show ?thesis by simp
  next
    case (Cons x a')
    with Plain.prems have "s = a' @ CHR ''<'' # b" by simp
    then show ?thesis by (rule Plain.IH)
  qed
next
  case (Entity e s)
  from Entity.hyps(1) have "CHR ''<'' \<notin> set e" by (auto simp: entities_def)
  from token_split [OF Entity.prems this] obtain a' where "s = a' @ CHR ''<'' # b" by blast
  then show ?case by (rule Entity.IH)
next
  case (Tag t s)
  from Tag.prems obtain us where
    "t = a @ us \<and> us @ s = CHR ''<'' # b \<or> t @ us = a \<and> s = us @ CHR ''<'' # b"
    by (auto simp: append_eq_append_conv2)
  then show ?case
  proof
    assume h: "t = a @ us \<and> us @ s = CHR ''<'' # b"
    show ?thesis
    proof (cases us)
      case Nil
      with h have "s = [] @ CHR ''<'' # b" by simp
      then show ?thesis by (rule Tag.IH)
    next
      case (Cons u us')
      with h have u: "u = CHR ''<''" and t: "t = a @ CHR ''<'' # us'" and b: "b = us' @ s" by simp_all
      from Tag.hyps(1) assms(3) have "CHR ''<'' \<notin> set (tl t)" by (simp add: list_all_iff)
      with t have "a = []" by (cases a) auto
      with t b have "prefix t (CHR ''<'' # b)" by simp
      with Tag.hyps(1) show ?thesis by blast
    qed
  next
    assume "t @ us = a \<and> s = us @ CHR ''<'' # b"
    then have "s = us @ CHR ''<'' # b" by simp
    then show ?thesis by (rule Tag.IH)
  qed
qed

lemma less_first_inline: "list_all (\<lambda>t. CHR ''<'' \<notin> set (tl t)) inline_tags"
  by (simp add: inline_tags_def)

lemma less_first_line: "list_all (\<lambda>t. CHR ''<'' \<notin> set (tl t)) line_tags"
  by (simp add: line_tags_def inline_tags_def block_tags_def)

lemma no_list_tag_prefix:
  assumes "t \<in> set line_tags"
  shows "\<not> prefix t (''<ul>'' @ b) \<and> \<not> prefix t (''</ul>'' @ b) \<and> \<not> prefix t (''<ol>'' @ b)
         \<and> \<not> prefix t (''</ol>'' @ b)"
  using assms by (auto simp: line_tags_def inline_tags_def block_tags_def)

lemma tagged_no_list_tag:
  assumes "tagged line_tags e"
  shows "\<not> sublist ''<ul>'' e \<and> \<not> sublist ''</ul>'' e \<and> \<not> sublist ''<ol>'' e \<and> \<not> sublist ''</ol>'' e"
proof -
  have "\<not> sublist (CHR ''<'' # w) e"
    if w: "\<And>t b. t \<in> set line_tags \<Longrightarrow> \<not> prefix t (CHR ''<'' # w @ b)" for w
  proof
    assume "sublist (CHR ''<'' # w) e"
    then obtain a b where "e = a @ CHR ''<'' # (w @ b)" by (auto simp: sublist_def)
    from tag_at_less [OF assms this less_first_line] w show False by blast
  qed
  from this [of "''ul>''"] this [of "''/ul>''"] this [of "''ol>''"] this [of "''/ol>''"]
    no_list_tag_prefix
  show ?thesis by simp
qed

lemma tagged_line_inline: "tagged inline_tags s \<Longrightarrow> tagged line_tags s"
  by (erule tagged_mono) (auto simp: line_tags_def)

lemma tagged_wrap:
  assumes "t1 \<in> set T" and "t2 \<in> set T" and "tagged T c"
  shows "tagged T (t1 @ c @ t2 @ ''\<newline>'')"
proof -
  have "tagged T ''\<newline>''" by (simp add: tagged.Plain tagged.Empty)
  with assms(2) have "tagged T (t2 @ ''\<newline>'')" by (rule tagged.Tag)
  with assms(3) have "tagged T (c @ t2 @ ''\<newline>'')" by (rule tagged_append)
  with assms(1) show ?thesis by (rule tagged.Tag)
qed

lemma string_of_nat_levels:
  "string_of_nat (Suc 0) = ''1''" "string_of_nat 2 = ''2''" "string_of_nat 3 = ''3''"
  "string_of_nat 4 = ''4''" "string_of_nat 5 = ''5''" "string_of_nat 6 = ''6''"
  by code_simp+

lemma heading_tags:
  assumes "1 \<le> n" and "n \<le> 6"
  shows "''<h'' @ string_of_nat n @ ''>'' \<in> set block_tags
         \<and> ''</h'' @ string_of_nat n @ ''>'' \<in> set block_tags"
proof -
  from assms have "n = 1 \<or> n = 2 \<or> n = 3 \<or> n = 4 \<or> n = 5 \<or> n = 6" by arith
  then show ?thesis
    by (elim disjE) (simp_all add: string_of_nat_levels block_tags_def)
qed

lemma tagged_heading:
  assumes "1 \<le> n" and "n \<le> 6" and "tagged line_tags c"
  shows "tagged line_tags (''<h'' @ string_of_nat n @ ''>'' @ c @ ''</h'' @ string_of_nat n @ ''>\<newline>'')"
proof -
  from heading_tags [OF assms(1,2)]
  have "''<h'' @ string_of_nat n @ ''>'' \<in> set line_tags"
    and "''</h'' @ string_of_nat n @ ''>'' \<in> set line_tags"
    by (simp_all add: line_tags_def)
  from tagged_wrap [OF this assms(3)] show ?thesis by simp
qed

lemma tagged_item: "tagged line_tags c \<Longrightarrow> tagged line_tags (''<li>'' @ c @ ''</li>\<newline>'')"
  using tagged_wrap [of "''<li>''" line_tags "''</li>''" c]
  by (simp add: line_tags_def block_tags_def)

lemma tagged_paragraph: "tagged line_tags c \<Longrightarrow> tagged line_tags (''<p>'' @ c @ ''</p>\<newline>'')"
  using tagged_wrap [of "''<p>''" line_tags "''</p>''" c]
  by (simp add: line_tags_def block_tags_def)

lemma tagged_newline: "tagged T ''\<newline>''"
  by (simp add: tagged.Plain tagged.Empty)

lemma tagged_rule: "tagged line_tags ''<hr>\<newline>''"
  using tagged.Tag [of "''<hr>''" line_tags "''\<newline>''"]
  by (simp add: line_tags_def block_tags_def tagged_newline)

lemma tagged_pre_open: "tagged line_tags ''<pre><code>''"
  using tagged.Tag [of "''<pre>''" line_tags "''<code>''"] tagged_tag [of "''<code>''" line_tags]
  by (simp add: line_tags_def block_tags_def inline_tags_def)

lemma tagged_pre_close: "tagged line_tags ''</code></pre>''"
  using tagged.Tag [of "''</code>''" line_tags "''</pre>''"] tagged_tag [of "''</pre>''" line_tags]
  by (simp add: line_tags_def block_tags_def inline_tags_def)

lemma tagged_code_line: "tagged line_tags (EscapeString line @ ''\<newline>'')"
  by (intro tagged_append tagged_EscapeString tagged_newline)

lemma regions_close_ul:
  assumes "list_regions InUL s"
  shows "list_regions NoList (s @ ''</ul>\<newline>'')"
proof -
  from assms have "list_regions NoList (s @ ''</ul>'')" by (rule list_regions.CloseUL)
  then have "list_regions NoList ((s @ ''</ul>'') @ ''\<newline>'')"
    by (rule list_regions.Text) (rule tagged_newline)
  then show ?thesis by simp
qed

lemma regions_close_ol:
  assumes "list_regions InOL s"
  shows "list_regions NoList (s @ ''</ol>\<newline>'')"
proof -
  from assms have "list_regions NoList (s @ ''</ol>'')" by (rule list_regions.CloseOL)
  then have "list_regions NoList ((s @ ''</ol>'') @ ''\<newline>'')"
    by (rule list_regions.Text) (rule tagged_newline)
  then show ?thesis by simp
qed

lemma regions_open_ul:
  assumes "list_regions NoList s"
  shows "list_regions InUL (s @ ''<ul>\<newline>'')"
proof -
  from assms have "list_regions InUL (s @ ''<ul>'')" by (rule list_regions.OpenUL)
  then have "list_regions InUL ((s @ ''<ul>'') @ ''\<newline>'')"
    by (rule list_regions.Text) (rule tagged_newline)
  then show ?thesis by simp
qed

lemma regions_open_ol:
  assumes "list_regions NoList s"
  shows "list_regions InOL (s @ ''<ol>\<newline>'')"
proof -
  from assms have "list_regions InOL (s @ ''<ol>'')" by (rule list_regions.OpenOL)
  then have "list_regions InOL ((s @ ''<ol>'') @ ''\<newline>'')"
    by (rule list_regions.Text) (rule tagged_newline)
  then show ?thesis by simp
qed

lemma regions_closers:
  assumes "regular st"
  shows "list_regions NoList (result st @ closers st)"
proof (cases "inUL st")
  case True
  with assms have "\<not> inOL st" and "list_regions InUL (result st)"
    by (simp_all add: regular_def list_mode_of_def)
  with True regions_close_ul [of "result st"] show ?thesis by (simp add: closers_def)
next
  case False
  show ?thesis
  proof (cases "inOL st")
    case True
    with False assms have "list_regions InOL (result st)"
      by (simp add: regular_def list_mode_of_def)
    with True False regions_close_ol [of "result st"] show ?thesis by (simp add: closers_def)
  next
    case no: False
    with False assms show ?thesis by (simp add: regular_def list_mode_of_def closers_def)
  qed
qed

lemma regular_closed:
  assumes "regular st" and "tagged line_tags e"
  shows "regular (st\<lparr>result := result st @ closers st @ e, inUL := False, inOL := False\<rparr>)"
    and "regular (st\<lparr>result := result st @ closers st @ e, inCodeBlock := b, inUL := False, inOL := False\<rparr>)"
proof -
  from regions_closers [OF assms(1)] assms(2)
  have "list_regions NoList ((result st @ closers st) @ e)" by (rule list_regions.Text)
  then show "regular (st\<lparr>result := result st @ closers st @ e, inUL := False, inOL := False\<rparr>)"
    and "regular (st\<lparr>result := result st @ closers st @ e, inCodeBlock := b, inUL := False, inOL := False\<rparr>)"
    by (simp_all add: regular_def list_mode_of_def)
qed

lemma regular_text:
  assumes "regular st" and "tagged line_tags e"
  shows "regular (st\<lparr>result := result st @ e\<rparr>)"
proof -
  from assms have "list_regions (list_mode_of st) (result st @ e)"
    by (simp add: regular_def list_regions.Text)
  with assms(1) show ?thesis by (auto simp: regular_def list_mode_of_def)
qed

lemma regular_unordered:
  assumes "regular st" and "tagged line_tags e"
  shows "regular (st\<lparr>result := result st @ (if inOL st then ''</ol>\<newline>'' else [])
                  @ (if inUL st then [] else ''<ul>\<newline>'') @ e,
               inUL := True, inOL := False\<rparr>)"
proof -
  have "list_regions InUL (result st @ (if inOL st then ''</ol>\<newline>'' else [])
                  @ (if inUL st then [] else ''<ul>\<newline>'') @ e)"
  proof (cases "inUL st")
    case True
    with assms(1) have "\<not> inOL st" and "list_regions InUL (result st)"
      by (simp_all add: regular_def list_mode_of_def)
    with True list_regions.Text [OF _ assms(2), of InUL "result st"] show ?thesis by simp
  next
    case False
    show ?thesis
    proof (cases "inOL st")
      case True
      with False assms(1) have "list_regions InOL (result st)"
        by (simp add: regular_def list_mode_of_def)
      then have "list_regions NoList (result st @ ''</ol>\<newline>'')" by (rule regions_close_ol)
      then have "list_regions InUL ((result st @ ''</ol>\<newline>'') @ ''<ul>\<newline>'')"
        by (rule regions_open_ul)
      then have "list_regions InUL (((result st @ ''</ol>\<newline>'') @ ''<ul>\<newline>'') @ e)"
        using assms(2) by (rule list_regions.Text)
      with True False show ?thesis by simp
    next
      case no: False
      with False assms(1) have "list_regions NoList (result st)"
        by (simp add: regular_def list_mode_of_def)
      then have "list_regions InUL (result st @ ''<ul>\<newline>'')" by (rule regions_open_ul)
      then have "list_regions InUL ((result st @ ''<ul>\<newline>'') @ e)"
        using assms(2) by (rule list_regions.Text)
      with no False show ?thesis by simp
    qed
  qed
  then show ?thesis by (simp add: regular_def list_mode_of_def)
qed

lemma regular_ordered:
  assumes "regular st" and "tagged line_tags e"
  shows "regular (st\<lparr>result := result st @ (if inUL st then ''</ul>\<newline>'' else [])
                  @ (if inOL st then [] else ''<ol>\<newline>'') @ e,
               inUL := False, inOL := True\<rparr>)"
proof -
  have "list_regions InOL (result st @ (if inUL st then ''</ul>\<newline>'' else [])
                  @ (if inOL st then [] else ''<ol>\<newline>'') @ e)"
  proof (cases "inOL st")
    case True
    with assms(1) have "\<not> inUL st" and "list_regions InOL (result st)"
      by (auto simp: regular_def list_mode_of_def)
    with True list_regions.Text [OF _ assms(2), of InOL "result st"] show ?thesis by simp
  next
    case False
    show ?thesis
    proof (cases "inUL st")
      case True
      with False assms(1) have "list_regions InUL (result st)"
        by (simp add: regular_def list_mode_of_def)
      then have "list_regions NoList (result st @ ''</ul>\<newline>'')" by (rule regions_close_ul)
      then have "list_regions InOL ((result st @ ''</ul>\<newline>'') @ ''<ol>\<newline>'')"
        by (rule regions_open_ol)
      then have "list_regions InOL (((result st @ ''</ul>\<newline>'') @ ''<ol>\<newline>'') @ e)"
        using assms(2) by (rule list_regions.Text)
      with True False show ?thesis by simp
    next
      case no: False
      with False assms(1) have "list_regions NoList (result st)"
        by (simp add: regular_def list_mode_of_def)
      then have "list_regions InOL (result st @ ''<ol>\<newline>'')" by (rule regions_open_ol)
      then have "list_regions InOL ((result st @ ''<ol>\<newline>'') @ e)"
        using assms(2) by (rule list_regions.Text)
      with no False show ?thesis by simp
    qed
  qed
  then show ?thesis by (simp add: regular_def list_mode_of_def)
qed

lemma process_line_regular:
  assumes "range_order ord" and "regular st"
  shows "regular (process_line ord st line)"
proof -
  note inl = tagged_line_inline [OF parseInline_tagged [OF assms(1)]]
  show ?thesis
  proof (cases "fence_line line")
    case True
    have "tagged line_tags (if inCodeBlock st then ''</code></pre>'' else ''<pre><code>'')"
      by (simp add: tagged_pre_open tagged_pre_close)
    from regular_closed(2) [OF assms(2) this] show ?thesis
      by (simp only: process_line_fence [OF True])
  next
    case nf: False
    show ?thesis
    proof (cases "inCodeBlock st")
      case True
      from regular_text [OF assms(2) tagged_code_line] show ?thesis
        by (simp only: process_line_code [OF nf True])
    next
      case nc: False
      from line_cases [of line] nf
      consider "heading_line line" | "rule_line line" | "unordered_item line"
        | "ordered_item line" | "blank_line line" | "paragraph_line line" by blast
      then show ?thesis
      proof cases
        case 1
        then have "1 \<le> heading_level (TrimSpace line)" and "heading_level (TrimSpace line) \<le> 6"
          by (simp_all add: heading_line_def)
        from regular_text [OF assms(2) tagged_heading [OF this inl]] show ?thesis
          by (simp only: process_line_heading [OF nc 1])
      next
        case 2
        from regular_text [OF assms(2) tagged_rule] show ?thesis
          by (simp only: process_line_rule [OF nc 2])
      next
        case 3
        from regular_unordered [OF assms(2) tagged_item [OF inl]] show ?thesis
          by (simp only: process_line_unordered [OF nc 3])
      next
        case 4
        then obtain n item where m: "match_ordered (TrimSpace line) = Some (n, item)"
          by (auto simp: ordered_item_def)
        from regular_ordered [OF assms(2) tagged_item [OF inl]] show ?thesis
          by (simp only: process_line_ordered [OF nc m])
      next
        case 5
        with assms(2) show ?thesis by (simp only: process_line_blank [OF nc 5])
      next
        case 6
        from regular_closed(1) [OF assms(2) tagged_paragraph [OF inl]] show ?thesis
          by (simp only: process_line_paragraph [OF nc 6])
      qed
    qed
  qed
qed

lemma foldl_regular:
  assumes "range_order ord"
  shows "regular st \<Longrightarrow> regular (foldl (process_line ord) st ls)"
  by (induction ls arbitrary: st) (simp_all add: process_line_regular [OF assms])

lemma regular_init: "regular init_state"
  by (simp add: regular_def init_state_def list_mode_of_def list_regions.Start)

lemma run_lines_regular: "range_order ord \<Longrightarrow> regular (run_lines ord ls)"
  unfolding run_lines_def by (rule foldl_regular [OF _ regular_init])

lemma finish_regions:
  assumes "regular st"
  shows "list_regions NoList (finish st)"
proof -
  from assms have r: "list_regions (list_mode_of st) (result st)" and x: "\<not> (inUL st \<and> inOL st)"
    by (simp_all add: regular_def)
  let ?c = "if inCodeBlock st then ''</code></pre>'' else []"
  have "tagged line_tags ?c" by (simp add: tagged_pre_close tagged.Empty)
  with r have c: "list_regions (list_mode_of st) (result st @ ?c)" by (rule list_regions.Text)
  have "finish st = (result st @ ?c) @ closers st"
    by (simp add: finish_def closers_def WriteString_def)
  moreover have "list_regions NoList ((result st @ ?c) @ closers st)"
  proof (cases "inUL st")
    case True
    with x c regions_close_ul [of "result st @ ?c"] show ?thesis
      by (simp add: list_mode_of_def closers_def)
  next
    case False
    with c regions_close_ol [of "result st @ ?c"] show ?thesis
      by (cases "inOL st") (simp_all add: list_mode_of_def closers_def)
  qed
  ultimately show ?thesis by simp
qed

lemma markdownToHTML_regions:
  assumes "range_order ord"
  shows "list_regions NoList (markdownToHTML ord md)"
  unfolding markdownToHTML_def
  by (simp add: list_regions.Start finish_regions run_lines_regular [OF assms])


lemma process_line_flags:
  assumes "\<not> (inUL st \<and> inOL st)"
  shows "\<not> (inUL (process_line ord st line) \<and> inOL (process_line ord st line))"
proof (cases "fence_line line")
  case True
  show ?thesis by (simp add: process_line_fence [OF True])
next
  case nf: False
  show ?thesis
  proof (cases "inCodeBlock st")
    case True
    with assms show ?thesis by (simp add: process_line_code [OF nf True])
  next
    case nc: False
    from line_cases [of line] nf
    consider "heading_line line" | "rule_line line" | "unordered_item line"
      | "ordered_item line" | "blank_line line" | "paragraph_line line" by blast
    then show ?thesis
    proof cases
      case 1
      with assms show ?thesis by (simp add: process_line_heading [OF nc 1])
    next
      case 2
      with assms show ?thesis by (simp add: process_line_rule [OF nc 2])
    next
      case 3
      show ?thesis by (simp add: process_line_unordered [OF nc 3])
    next
      case 4
      then obtain n item where m: "match_ordered (TrimSpace line) = Some (n, item)"
        by (auto simp: ordered_item_def)
      show ?thesis by (simp add: process_line_ordered [OF nc m])
    next
      case 5
      with assms show ?thesis by (simp add: process_line_blank [OF nc 5])
    next
      case 6
      show ?thesis by (simp add: process_line_paragraph [OF nc 6])
    qed
  qed
qed

lemma foldl_flags:
  "\<not> (inUL st \<and> inOL st) \<Longrightarrow>
     \<not> (inUL (foldl (process_line ord) st ls) \<and> inOL (foldl (process_line ord) st ls))"
proof (induction ls arbitrary: st)
  case Nil
  then show ?case by simp
next
  case (Cons l ls)
  from process_line_flags [OF Cons.prems] have "\<not> (inUL (process_line ord st l) \<and> inOL (process_line ord st l))" .
  from Cons.IH [OF this] show ?case by simp
qed

lemma run_lines_flags: "\<not> (inUL (run_lines ord ls) \<and> inOL (run_lines ord ls))"
  unfolding run_lines_def by (rule foldl_flags) (simp add: init_state_def)

lemma quiet_line_output:
  assumes "range_order ord" and "heading_line line \<or> rule_line line \<or> blank_line line"
  shows "\<exists>e. process_line ord st line = st\<lparr>result := result st @ e\<rparr> \<and> tagged line_tags e"
proof -
  from assms(2) have nf: "\<not> fence_line line"
    using heading_line_not_fence rule_line_not_others
    by (auto simp: blank_line_def fence_line_def)
  show ?thesis
  proof (cases "inCodeBlock st")
    case True
    from process_line_code [OF nf True] tagged_code_line show ?thesis by blast
  next
    case nc: False
    from assms(2) show ?thesis
    proof (elim disjE)
      assume h: "heading_line line"
      then have "1 \<le> heading_level (TrimSpace line)" and "heading_level (TrimSpace line) \<le> 6"
        by (simp_all add: heading_line_def)
      from tagged_heading [OF this tagged_line_inline [OF parseInline_tagged [OF assms(1)]]]
        process_line_heading [OF nc h]
      show ?thesis by blast
    next
      assume r: "rule_line line"
      from process_line_rule [OF nc r] tagged_rule show ?thesis by blast
    next
      assume b: "blank_line line"
      have "st = st\<lparr>result := result st @ []\<rparr>" by simp
      with process_line_blank [OF nc b] have "process_line ord st line = st\<lparr>result := result st @ []\<rparr>"
        by simp
      then show ?thesis using tagged.Empty by blast
    qed
  qed
qed

lemma string_of_nat_first: "\<exists>d ds. string_of_nat n = d # ds \<and> re_digit d"
proof -
  have ne: "string_of_nat n \<noteq> []" by (subst string_of_nat.simps) simp
  then obtain d ds where s: "string_of_nat n = d # ds" by (cases "string_of_nat n") auto
  then have "d \<in> set (string_of_nat n)" by simp
  then have "re_digit d" by (rule string_of_nat_digits)
  with s show ?thesis by blast
qed

lemma no_heading_prefix:
  assumes "prefix ''<hr>'' e \<or> prefix ''<li>'' e \<or> prefix ''<ul>'' e \<or> prefix ''<ol>'' e
           \<or> prefix ''</'' e \<or> prefix ''<p>'' e \<or> e = []"
  shows "\<not> prefix (''<h'' @ string_of_nat n @ ''>'') e"
proof
  assume p: "prefix (''<h'' @ string_of_nat n @ ''>'') e"
  from string_of_nat_first [of n] obtain d ds where s: "string_of_nat n = d # ds" and d: "re_digit d"
    by blast
  from p s obtain r where e: "e = CHR ''<'' # CHR ''h'' # d # r" by (auto simp: prefix_def)
  from d have "d \<noteq> CHR ''r''" by (auto simp: re_digit_def)
  with assms e show False by auto
qed

subsection \<open>Text without inline syntax\<close>


























subsection \<open>Occurrences of a token\<close>

































subsection \<open>Code spans in a line that spells no placeholder\<close>




























































text \<open>
  With a code span in a line that spells a placeholder the escaped text can be lost: here
  the range over the map takes the second entry first, its key is found across the end
  of the first placeholder, and the first span with its \<open><\<close> is never put back.
\<close>

lemma parseInline_collision_loss:
  "parseInline reverse_order ([CHR 0x60] @ ''<'' @ [CHR 0x60] @ ''CODE1__ '' @ [CHR 0x60] @ ''y'' @ [CHR 0x60])
   = ''__CODE0<code>y</code> <code>y</code>''"
  by code_simp


subsection \<open>What the block parser keeps of a line\<close>





























section \<open>The claims\<close>




text \<open>
  C2 (inline code spans are restored verbatim). The code does not keep this where the
  content of a code span reads like a placeholder of another span. The line
  \<^verbatim>\<open>`__CODE1__` `__CODE0__`\<close> has two code spans; whatever the order in which Go ranges
  over the map, one of the two comes out with the markup of the other in place of its
  content, so the result is never the verbatim
  \<^verbatim>\<open><code>__CODE1__</code> <code>__CODE0__</code>\<close>. A single code span is restored
  verbatim: the link syntax inside \<^verbatim>\<open>`[x](y)`\<close> is not rendered.
\<close>

theorem parseInline_placeholder_collision:
  assumes "range_order ord"
  shows "parseInline ord ([CHR 0x60] @ ''[x](y)'' @ [CHR 0x60]) = ''<code>[x](y)</code>''
         \<and> (parseInline ord
               ([CHR 0x60] @ ''__CODE1__'' @ [CHR 0x60] @ '' '' @ [CHR 0x60] @ ''__CODE0__'' @ [CHR 0x60])
               = ''<code><code>__CODE0__</code></code> <code>__CODE0__</code>''
             \<or> parseInline ord
               ([CHR 0x60] @ ''__CODE1__'' @ [CHR 0x60] @ '' '' @ [CHR 0x60] @ ''__CODE0__'' @ [CHR 0x60])
               = ''<code>__CODE1__</code> <code><code>__CODE1__</code></code>'')"
proof -
  let ?line = "[CHR 0x60] @ ''__CODE1__'' @ [CHR 0x60] @ '' '' @ [CHR 0x60] @ ''__CODE0__'' @ [CHR 0x60]"
  let ?e0 = "(''__CODE0__'', ''<code>__CODE1__</code>'')"
  let ?e1 = "(''__CODE1__'', ''<code>__CODE0__</code>'')"
  have one: "snd (code_pass 0 (EscapeString ([CHR 0x60] @ ''[x](y)'' @ [CHR 0x60])))
             = [(''__CODE0__'', ''<code>[x](y)</code>'')]"
    by code_simp
  have "parseInline insertion_order ([CHR 0x60] @ ''[x](y)'' @ [CHR 0x60]) = ''<code>[x](y)</code>''"
    by code_simp
  with parseInline_one_code [OF assms one]
  have ex: "parseInline ord ([CHR 0x60] @ ''[x](y)'' @ [CHR 0x60]) = ''<code>[x](y)</code>''"
    by simp
  have pass: "code_pass 0 (EscapeString ?line) = (''__CODE0__ __CODE1__'', [?e0, ?e1])"
    by code_simp
  have mid: "italic_pass True (bold_pass (link_pass (image_pass ''__CODE0__ __CODE1__'')))
             = ''__CODE0__ __CODE1__''"
    by code_simp
  have fwd: "restore [?e0, ?e1] ''__CODE0__ __CODE1__''
             = ''<code><code>__CODE0__</code></code> <code>__CODE0__</code>''"
    by code_simp
  have bwd: "restore [?e1, ?e0] ''__CODE0__ __CODE1__''
             = ''<code>__CODE1__</code> <code><code>__CODE1__</code></code>''"
    by code_simp
  from range_order_pair [OF assms, of ?e0 ?e1]
  have "parseInline ord ?line = ''<code><code>__CODE0__</code></code> <code>__CODE0__</code>''
        \<or> parseInline ord ?line = ''<code>__CODE1__</code> <code><code>__CODE1__</code></code>''"
  proof
    assume "ord [?e0, ?e1] = [?e0, ?e1]"
    with pass mid fwd show ?thesis unfolding parseInline_def by simp
  next
    assume "ord [?e0, ?e1] = [?e1, ?e0]"
    with pass mid bwd show ?thesis unfolding parseInline_def by simp
  qed
  with ex show ?thesis by blast
qed

theorem parseInline_placeholder_collision_witness:
  "parseInline insertion_order ([CHR 0x60] @ ''[x](y)'' @ [CHR 0x60]) = ''<code>[x](y)</code>''
   \<and> parseInline insertion_order
     ([CHR 0x60] @ ''__CODE1__'' @ [CHR 0x60] @ '' '' @ [CHR 0x60] @ ''__CODE0__'' @ [CHR 0x60])
   = ''<code><code>__CODE0__</code></code> <code>__CODE0__</code>''"
proof -
  have "parseInline insertion_order
          ([CHR 0x60] @ ''__CODE1__'' @ [CHR 0x60] @ '' '' @ [CHR 0x60] @ ''__CODE0__'' @ [CHR 0x60])
        \<noteq> ''<code>__CODE1__</code> <code><code>__CODE1__</code></code>''"
    by code_simp
  with parseInline_placeholder_collision [OF range_order_insertion] show ?thesis by blast
qed

text \<open>
  C3 (which lines close an open list). A heading line, a horizontal rule and a blank line
  change nothing of the state but the output, and what they write contains neither
  \<open></ul>\<close> nor \<open></ol>\<close>. A fence line and a paragraph line first write the closing tag
  of every list that is open and leave no list open; an unordered item met while an
  ordered list is open first writes \<open></ol>\<close>, and an ordered item met while an unordered
  list is open first writes \<open></ul>\<close>; each then writes its own output.
\<close>

theorem list_state_frame:
  assumes "range_order ord"
  shows "(heading_line line \<or> rule_line line \<or> blank_line line \<longrightarrow>
            (\<exists>e. process_line ord st line = st\<lparr>result := result st @ e\<rparr>
                 \<and> \<not> sublist ''</ul>'' e \<and> \<not> sublist ''</ol>'' e))
         \<and> (fence_line line \<longrightarrow>
              process_line ord st line
                = st\<lparr>result := result st @ closers st
                         @ (if inCodeBlock st then ''</code></pre>'' else ''<pre><code>''),
                      inCodeBlock := \<not> inCodeBlock st, inUL := False, inOL := False\<rparr>)
         \<and> (inCodeBlock st = False \<and> paragraph_line line \<longrightarrow>
              process_line ord st line
                = st\<lparr>result := result st @ closers st @ ''<p>'' @ parseInline ord (TrimSpace line)
                         @ ''</p>\<newline>'',
                      inUL := False, inOL := False\<rparr>)
         \<and> (inCodeBlock st = False \<and> unordered_item line \<and> inOL st \<longrightarrow>
              process_line ord st line
                = st\<lparr>result := result st @ ''</ol>\<newline>'' @ (if inUL st then [] else ''<ul>\<newline>'')
                         @ ''<li>''
                         @ parseInline ord (TrimPrefix (TrimPrefix (TrimSpace line) ''- '') ''* '')
                         @ ''</li>\<newline>'',
                      inUL := True, inOL := False\<rparr>)
         \<and> (inCodeBlock st = False \<and> match_ordered (TrimSpace line) = Some (n, item) \<and> inUL st \<longrightarrow>
              process_line ord st line
                = st\<lparr>result := result st @ ''</ul>\<newline>'' @ (if inOL st then [] else ''<ol>\<newline>'')
                         @ ''<li>'' @ parseInline ord item @ ''</li>\<newline>'',
                      inUL := False, inOL := True\<rparr>)"
proof (intro conjI impI)
  assume "heading_line line \<or> rule_line line \<or> blank_line line"
  from quiet_line_output [OF assms this] obtain e
    where "process_line ord st line = st\<lparr>result := result st @ e\<rparr>" and "tagged line_tags e"
    by blast
  with tagged_no_list_tag [of e]
  show "\<exists>e. process_line ord st line = st\<lparr>result := result st @ e\<rparr>
             \<and> \<not> sublist ''</ul>'' e \<and> \<not> sublist ''</ol>'' e"
    by blast
next
  assume "fence_line line"
  then show "process_line ord st line
                = st\<lparr>result := result st @ closers st
                         @ (if inCodeBlock st then ''</code></pre>'' else ''<pre><code>''),
                      inCodeBlock := \<not> inCodeBlock st, inUL := False, inOL := False\<rparr>"
    by (rule process_line_fence)
next
  assume "inCodeBlock st = False \<and> paragraph_line line"
  then show "process_line ord st line
                = st\<lparr>result := result st @ closers st @ ''<p>'' @ parseInline ord (TrimSpace line)
                         @ ''</p>\<newline>'',
                      inUL := False, inOL := False\<rparr>"
    by (simp add: process_line_paragraph)
next
  assume "inCodeBlock st = False \<and> unordered_item line \<and> inOL st"
  then show "process_line ord st line
                = st\<lparr>result := result st @ ''</ol>\<newline>'' @ (if inUL st then [] else ''<ul>\<newline>'')
                         @ ''<li>''
                         @ parseInline ord (TrimPrefix (TrimPrefix (TrimSpace line) ''- '') ''* '')
                         @ ''</li>\<newline>'',
                      inUL := True, inOL := False\<rparr>"
    by (simp add: process_line_unordered)
next
  assume "inCodeBlock st = False \<and> match_ordered (TrimSpace line) = Some (n, item) \<and> inUL st"
  then show "process_line ord st line
                = st\<lparr>result := result st @ ''</ul>\<newline>'' @ (if inOL st then [] else ''<ol>\<newline>'')
                         @ ''<li>'' @ parseInline ord item @ ''</li>\<newline>'',
                      inUL := False, inOL := True\<rparr>"
    by (simp add: process_line_ordered)
qed

theorem list_state_frame_witness:
  "markdownToHTML insertion_order ''- a\<newline># H\<newline>\<newline>---\<newline>- b\<newline>text''
     = ''<ul>\<newline><li>a</li>\<newline><h1>H</h1>\<newline><hr>\<newline><li>b</li>\<newline></ul>\<newline><p>text</p>\<newline>''
   \<and> heading_line ''# H'' \<and> rule_line ''---'' \<and> blank_line [] \<and> paragraph_line ''text''
   \<and> (\<exists>e. process_line insertion_order (run_lines insertion_order [''- a'']) ''# H''
          = (run_lines insertion_order [''- a''])\<lparr>result := result (run_lines insertion_order [''- a'']) @ e\<rparr>
          \<and> \<not> sublist ''</ul>'' e \<and> \<not> sublist ''</ol>'' e)
   \<and> result (process_line insertion_order (run_lines insertion_order [''- a'']) ''text'')
       = ''<ul>\<newline><li>a</li>\<newline></ul>\<newline><p>text</p>\<newline>''"
proof -
  have 1: "markdownToHTML insertion_order ''- a\<newline># H\<newline>\<newline>---\<newline>- b\<newline>text''
     = ''<ul>\<newline><li>a</li>\<newline><h1>H</h1>\<newline><hr>\<newline><li>b</li>\<newline></ul>\<newline><p>text</p>\<newline>''"
    by code_simp
  have 2: "heading_line ''# H''" by code_simp
  have 3: "rule_line ''---''" by code_simp
  have 4: "blank_line []" by code_simp
  have 5: "paragraph_line ''text''" by code_simp
  have 6: "inCodeBlock (run_lines insertion_order [''- a'']) = False" by code_simp
  have 7: "result (run_lines insertion_order [''- a'']) = ''<ul>\<newline><li>a</li>\<newline>''" by code_simp
  have 8: "closers (run_lines insertion_order [''- a'']) = ''</ul>\<newline>''" by code_simp
  have 9: "parseInline insertion_order (TrimSpace ''text'') = ''text''" by code_simp
  note t = list_state_frame [OF range_order_insertion, of _ "run_lines insertion_order [''- a'']"]
  from t [of "''# H''"] 2
  have a: "\<exists>e. process_line insertion_order (run_lines insertion_order [''- a'']) ''# H''
          = (run_lines insertion_order [''- a''])\<lparr>result := result (run_lines insertion_order [''- a'']) @ e\<rparr>
          \<and> \<not> sublist ''</ul>'' e \<and> \<not> sublist ''</ol>'' e"
    by blast
  from t [of "''text''"] 5 6
  have "process_line insertion_order (run_lines insertion_order [''- a'']) ''text''
        = (run_lines insertion_order [''- a''])\<lparr>result := result (run_lines insertion_order [''- a''])
             @ closers (run_lines insertion_order [''- a'']) @ ''<p>''
             @ parseInline insertion_order (TrimSpace ''text'') @ ''</p>\<newline>'',
           inUL := False, inOL := False\<rparr>"
    by blast
  then have b: "result (process_line insertion_order (run_lines insertion_order [''- a'']) ''text'')
       = ''<ul>\<newline><li>a</li>\<newline></ul>\<newline><p>text</p>\<newline>''"
    by (simp add: 7 8 9)
  from 1 2 3 4 5 a b show ?thesis by blast
qed

text \<open>
  C4 (every slide has a character that is not white space). The heading fallback does
  not discard a slide of white space as the separator path does: for a body that is
  empty or all white space, parseMarkdown returns one slide, the empty string.
\<close>

theorem parseMarkdown_blank_body:
  assumes "TrimSpace body = []"
  shows "parseMarkdown body = [[]]"
proof -
  have 1: "Split [] slide_break = [[]]"
    by (subst Split.simps) (simp add: slide_break_def)
  have 2: "Split [] ''\<newline>'' = [[]]"
    by (subst Split.simps) simp
  show ?thesis
    unfolding parseMarkdown_def Let_def assms 1 2
    by (simp add: heading_slides_def heading_step_def)
qed

theorem parseMarkdown_blank_body_witness:
  "TrimSpace [] = [] \<and> parseMarkdown [] = [[]] \<and> TrimSpace '' \<newline> '' = []
   \<and> parseMarkdown '' \<newline> '' = [[]]"
proof -
  have 1: "TrimSpace [] = []" by code_simp
  have 2: "TrimSpace '' \<newline> '' = []" by code_simp
  from parseMarkdown_blank_body [OF 1] parseMarkdown_blank_body [OF 2] 1 2
  show ?thesis by simp
qed

text \<open>
  C6 (heading lines), as the claim words it, asks for white space after the \<open>#\<close>
  characters. The code does not: \<open>#foo\<close> is rendered as a heading.
\<close>

theorem heading_without_space:
  "claimed_heading_line ''#foo'' = False
   \<and> heading_line ''#foo''
   \<and> markdownToHTML insertion_order ''#foo'' = ''<h1>foo</h1>\<newline>''"
  by code_simp

text \<open>
  C6, amended: outside a code block, a line that is not a fence line is rendered as a
  heading exactly when its trimmed form has one to six leading \<open>#\<close> characters, whatever
  follows them. The tag is \<open><hN>\<close> with N the number of leading \<open>#\<close>, around the inline
  transform of the trimmed rest of the line; for any other line the output written does
  not begin with a heading tag.
\<close>

theorem heading_rendering:
  assumes "\<not> inCodeBlock st" and "\<not> fence_line line"
  shows "(heading_line line \<longrightarrow>
            process_line ord st line
              = st\<lparr>result := result st @ ''<h'' @ string_of_nat (heading_level (TrimSpace line)) @ ''>''
                       @ parseInline ord
                           (TrimSpace (drop (heading_level (TrimSpace line)) (TrimSpace line)))
                       @ ''</h'' @ string_of_nat (heading_level (TrimSpace line)) @ ''>\<newline>''\<rparr>)
         \<and> (heading_line line = False \<longrightarrow>
              (\<exists>e. result (process_line ord st line) = result st @ e
                   \<and> (\<forall>k. \<not> prefix (''<h'' @ string_of_nat k @ ''>'') e)))"
proof (intro conjI impI)
  assume "heading_line line"
  with assms(1) show "process_line ord st line
              = st\<lparr>result := result st @ ''<h'' @ string_of_nat (heading_level (TrimSpace line)) @ ''>''
                       @ parseInline ord
                           (TrimSpace (drop (heading_level (TrimSpace line)) (TrimSpace line)))
                       @ ''</h'' @ string_of_nat (heading_level (TrimSpace line)) @ ''>\<newline>''\<rparr>"
    by (rule process_line_heading)
next
  assume "heading_line line = False"
  with line_cases [of line] assms(2)
  consider "rule_line line" | "unordered_item line"
    | "ordered_item line" | "blank_line line" | "paragraph_line line" by blast
  then have "\<exists>e. result (process_line ord st line) = result st @ e
      \<and> (prefix ''<hr>'' e \<or> prefix ''<li>'' e \<or> prefix ''<ul>'' e \<or> prefix ''<ol>'' e
           \<or> prefix ''</'' e \<or> prefix ''<p>'' e \<or> e = [])"
  proof cases
    case 1
    have "result (process_line ord st line) = result st @ ''<hr>\<newline>''"
      by (simp add: process_line_rule [OF assms(1) 1])
    then show ?thesis by (intro exI [of _ "''<hr>\<newline>''"]) simp
  next
    case 2
    let ?e = "(if inOL st then ''</ol>\<newline>'' else [])
                  @ (if inUL st then [] else ''<ul>\<newline>'')
                  @ ''<li>'' @ parseInline ord (TrimPrefix (TrimPrefix (TrimSpace line) ''- '') ''* '')
                  @ ''</li>\<newline>''"
    have "result (process_line ord st line) = result st @ ?e"
      by (simp add: process_line_unordered [OF assms(1) 2])
    then show ?thesis by (intro exI [of _ ?e]) simp
  next
    case 3
    then obtain n item where m: "match_ordered (TrimSpace line) = Some (n, item)"
      by (auto simp: ordered_item_def)
    let ?e = "(if inUL st then ''</ul>\<newline>'' else [])
                  @ (if inOL st then [] else ''<ol>\<newline>'')
                  @ ''<li>'' @ parseInline ord item @ ''</li>\<newline>''"
    have "result (process_line ord st line) = result st @ ?e"
      by (simp add: process_line_ordered [OF assms(1) m])
    then show ?thesis by (intro exI [of _ ?e]) simp
  next
    case 4
    have "result (process_line ord st line) = result st @ []"
      by (simp add: process_line_blank [OF assms(1) 4])
    then show ?thesis by blast
  next
    case 5
    let ?e = "closers st @ ''<p>'' @ parseInline ord (TrimSpace line) @ ''</p>\<newline>''"
    have "result (process_line ord st line) = result st @ ?e"
      by (simp add: process_line_paragraph [OF assms(1) 5])
    then show ?thesis by (intro exI [of _ ?e]) (simp add: closers_def)
  qed
  then obtain e where "result (process_line ord st line) = result st @ e"
    and "prefix ''<hr>'' e \<or> prefix ''<li>'' e \<or> prefix ''<ul>'' e \<or> prefix ''<ol>'' e
           \<or> prefix ''</'' e \<or> prefix ''<p>'' e \<or> e = []"
    by blast
  with no_heading_prefix [of e]
  show "\<exists>e. result (process_line ord st line) = result st @ e
                   \<and> (\<forall>k. \<not> prefix (''<h'' @ string_of_nat k @ ''>'') e)"
    by blast
qed

theorem heading_rendering_witness:
  "result (process_line insertion_order init_state ''  ## Two *x*'') = ''<h2>Two <em>x</em></h2>\<newline>''
   \<and> result (process_line insertion_order init_state ''#######seven'') = ''<p>#######seven</p>\<newline>''
   \<and> (\<exists>e. result (process_line insertion_order init_state ''#######seven'') = result init_state @ e
          \<and> (\<forall>k. \<not> prefix (''<h'' @ string_of_nat k @ ''>'') e))"
proof -
  have nc: "\<not> inCodeBlock init_state" by (simp add: init_state_def)
  have f1: "\<not> fence_line ''  ## Two *x*''" by code_simp
  have h1: "heading_line ''  ## Two *x*''" by code_simp
  have v1: "''<h'' @ string_of_nat (heading_level (TrimSpace ''  ## Two *x*'')) @ ''>''
              @ parseInline insertion_order
                  (TrimSpace (drop (heading_level (TrimSpace ''  ## Two *x*'')) (TrimSpace ''  ## Two *x*'')))
              @ ''</h'' @ string_of_nat (heading_level (TrimSpace ''  ## Two *x*'')) @ ''>\<newline>''
            = ''<h2>Two <em>x</em></h2>\<newline>''"
    by code_simp
  have f2: "\<not> fence_line ''#######seven''" by code_simp
  have h2: "heading_line ''#######seven'' = False" by code_simp
  have v2: "result (process_line insertion_order init_state ''#######seven'') = ''<p>#######seven</p>\<newline>''"
    by code_simp
  from heading_rendering [OF nc f1, of insertion_order] h1
  have "process_line insertion_order init_state ''  ## Two *x*''
        = init_state\<lparr>result := result init_state @ ''<h'' @ string_of_nat (heading_level (TrimSpace ''  ## Two *x*'')) @ ''>''
              @ parseInline insertion_order
                  (TrimSpace (drop (heading_level (TrimSpace ''  ## Two *x*'')) (TrimSpace ''  ## Two *x*'')))
              @ ''</h'' @ string_of_nat (heading_level (TrimSpace ''  ## Two *x*'')) @ ''>\<newline>''\<rparr>"
    by blast
  then have a: "result (process_line insertion_order init_state ''  ## Two *x*'') = ''<h2>Two <em>x</em></h2>\<newline>''"
    unfolding v1 by (simp add: init_state_def)
  from heading_rendering [OF nc f2, of insertion_order] h2
  have b: "\<exists>e. result (process_line insertion_order init_state ''#######seven'') = result init_state @ e
          \<and> (\<forall>k. \<not> prefix (''<h'' @ string_of_nat k @ ''>'') e)"
    by blast
  from a v2 b show ?thesis by blast
qed

text \<open>
  C7 (an unordered item loses exactly its one matched prefix). The code removes the
  prefix \<open>- \<close> and then a prefix \<open>* \<close> from what is left, so the item \<open>- * foo\<close> loses
  both and is rendered as the item \<open>foo\<close>, whatever the order of the map, while the
  text \<open>* foo\<close> that follows the one matched prefix is rendered as \<open>* foo\<close>.
\<close>

theorem markdownToHTML_double_prefix:
  assumes "range_order ord"
  shows "markdownToHTML ord ''- * foo'' = ''<ul>\<newline><li>foo</li>\<newline></ul>\<newline>''
         \<and> parseInline ord ''* foo'' = ''* foo''"
proof -
  have s: "Split ''- * foo'' ''\<newline>'' = [''- * foo'']" by code_simp
  have u: "unordered_item ''- * foo''" by code_simp
  have t: "TrimPrefix (TrimPrefix (TrimSpace ''- * foo'') ''- '') ''* '' = ''foo''" by code_simp
  have n1: "snd (code_pass 0 (EscapeString ''foo'')) = []" by code_simp
  have n2: "snd (code_pass 0 (EscapeString ''* foo'')) = []" by code_simp
  have "parseInline insertion_order ''foo'' = ''foo''" by code_simp
  with parseInline_no_code [OF assms n1] have p1: "parseInline ord ''foo'' = ''foo''" by simp
  have "parseInline insertion_order ''* foo'' = ''* foo''" by code_simp
  with parseInline_no_code [OF assms n2] have p2: "parseInline ord ''* foo'' = ''* foo''" by simp
  have nc: "\<not> inCodeBlock init_state" by (simp add: init_state_def)
  have "markdownToHTML ord ''- * foo'' = finish (process_line ord init_state ''- * foo'')"
    by (simp add: markdownToHTML_def s run_lines_def)
  also have "\<dots> = ''<ul>\<newline><li>foo</li>\<newline></ul>\<newline>''"
    unfolding process_line_unordered [OF nc u] t p1
    by (simp add: finish_def init_state_def WriteString_def)
  finally show ?thesis using p2 by simp
qed

theorem markdownToHTML_double_prefix_witness:
  "markdownToHTML insertion_order ''- * foo'' = ''<ul>\<newline><li>foo</li>\<newline></ul>\<newline>''
   \<and> markdownToHTML reverse_order ''- * foo'' = ''<ul>\<newline><li>foo</li>\<newline></ul>\<newline>''"
  using markdownToHTML_double_prefix [OF range_order_insertion]
    markdownToHTML_double_prefix [OF range_order_reverse]
  by blast




text \<open>
  C8 (the separator path), as the claim words it: the chunks between the lines that are
  exactly three hyphens. This fails where two such lines follow each other: the newline
  between them belongs to the first separator, so the second line is no separator for
  \<open>strings.Split\<close> and opens the next slide.
\<close>

theorem parseMarkdown_adjacent_separators:
  "sublist slide_break (TrimSpace ''a\<newline>---\<newline>---\<newline>b'')
   \<and> claimed_slides ''a\<newline>---\<newline>---\<newline>b'' = [''a'', ''b'']
   \<and> parseMarkdown ''a\<newline>---\<newline>---\<newline>b'' = [''a'', ''---\<newline>b'']"
  by code_simp

text \<open>
  C8, amended: when the trimmed body contains the separator text (newline, three hyphens,
  newline), the slides are the pieces between its leftmost occurrences that do not
  overlap, in the order of the document (joined by the separator they give the trimmed
  body back, and no piece contains the separator), each trimmed, the empty ones dropped.
\<close>

theorem parseMarkdown_separator_path:
  assumes "sublist slide_break (TrimSpace body)"
  shows "parseMarkdown body
           = filter (\<lambda>part. part \<noteq> []) (map TrimSpace (Split (TrimSpace body) slide_break))
         \<and> 2 \<le> length (Split (TrimSpace body) slide_break)
         \<and> Join (Split (TrimSpace body) slide_break) slide_break = TrimSpace body
         \<and> (\<forall>part \<in> set (Split (TrimSpace body) slide_break). \<not> sublist slide_break part)
         \<and> parseMarkdown ''one\<newline>---\<newline>two\<newline>---\<newline>three'' = [''one'', ''two'', ''three'']"
proof -
  let ?parts = "Split (TrimSpace body) slide_break"
  from assms have len: "2 \<le> length ?parts"
    by (simp add: Split_length_sublist slide_break_not_Nil)
  then have "length ?parts \<noteq> 1" by simp
  then have "parseMarkdown body = filter (\<lambda>part. part \<noteq> []) (map TrimSpace ?parts)"
    unfolding parseMarkdown_def Let_def by simp
  moreover have "Join ?parts slide_break = TrimSpace body"
    by (rule Join_Split) (rule slide_break_not_Nil)
  moreover have "\<forall>part \<in> set ?parts. \<not> sublist slide_break part"
    using Split_part_no_sep [OF slide_break_not_Nil] by blast
  moreover have "parseMarkdown ''one\<newline>---\<newline>two\<newline>---\<newline>three'' = [''one'', ''two'', ''three'']"
    by code_simp
  ultimately show ?thesis using len by blast
qed

theorem parseMarkdown_separator_path_witness:
  "sublist slide_break (TrimSpace ''a\<newline>---\<newline> \<newline>---\<newline> b '')
   \<and> parseMarkdown ''a\<newline>---\<newline> \<newline>---\<newline> b '' = [''a'', ''b'']
   \<and> Split (TrimSpace ''a\<newline>---\<newline> \<newline>---\<newline> b '') slide_break = [''a'', '' '', '' b'']"
proof -
  have t: "TrimSpace ''a\<newline>---\<newline> \<newline>---\<newline> b '' = ''a\<newline>---\<newline> \<newline>---\<newline> b''"
    by code_simp
  have s: "Split ''a\<newline>---\<newline> \<newline>---\<newline> b'' slide_break = [''a'', '' '', '' b'']"
    by code_simp
  have m: "filter (\<lambda>part. part \<noteq> []) (map TrimSpace [''a'', '' '', '' b'']) = [''a'', ''b'']"
    by code_simp
  have sub: "sublist slide_break (TrimSpace ''a\<newline>---\<newline> \<newline>---\<newline> b '')"
    unfolding t by code_simp
  from parseMarkdown_separator_path [OF sub] t s m sub show ?thesis by simp
qed




text \<open>
  C10 (the list flags exclude each other). After any number of lines of the loop, inUL
  and inOL are not both set. For every slide text the fragment is a sequence of pieces
  without list tags and of list tags, where a list opens only when none is open and the
  tag that closes is the one of the list that is open: the regions of \<open><ul>\<close> and \<open><ol>\<close>
  neither nest nor interleave. A piece without list tags contains none of the four list
  tags as a substring.
\<close>

theorem lists_never_overlap:
  "\<not> (inUL (run_lines ord ls) \<and> inOL (run_lines ord ls))
   \<and> (range_order ord \<longrightarrow> list_regions NoList (markdownToHTML ord md))
   \<and> (tagged line_tags e \<longrightarrow>
        \<not> sublist ''<ul>'' e \<and> \<not> sublist ''</ul>'' e \<and> \<not> sublist ''<ol>'' e \<and> \<not> sublist ''</ol>'' e)"
  using run_lines_flags [of ord ls] markdownToHTML_regions [of ord md] tagged_no_list_tag [of e]
  by blast

theorem lists_never_overlap_witness:
  "list_regions NoList (markdownToHTML insertion_order ''- a\<newline>- b\<newline>1. c'')
   \<and> markdownToHTML insertion_order ''- a\<newline>- b\<newline>1. c''
       = ''<ul>\<newline><li>a</li>\<newline><li>b</li>\<newline></ul>\<newline><ol>\<newline><li>c</li>\<newline></ol>\<newline>''
   \<and> inUL (run_lines insertion_order [''- a'', ''- b''])
   \<and> \<not> inOL (run_lines insertion_order [''- a'', ''- b''])
   \<and> \<not> sublist ''<ul>'' ''<li>a</li>\<newline>''"
proof -
  have 1: "markdownToHTML insertion_order ''- a\<newline>- b\<newline>1. c''
       = ''<ul>\<newline><li>a</li>\<newline><li>b</li>\<newline></ul>\<newline><ol>\<newline><li>c</li>\<newline></ol>\<newline>''"
    by code_simp
  have 2: "inUL (run_lines insertion_order [''- a'', ''- b''])" by code_simp
  have 3: "tagged line_tags ''<li>a</li>\<newline>''"
    using tagged_item [of "''a''"] by (simp add: tagged.Plain tagged.Empty)
  from lists_never_overlap [of insertion_order "[''- a'', ''- b'']" "''- a\<newline>- b\<newline>1. c''" "''<li>a</li>\<newline>''"]
    range_order_insertion 1 2 3
  show ?thesis by simp
qed

end
